theory Spec2Isabelle
  imports Main "HOL-Library.Word" "HOL-Library.Monad_Syntax" "HOL-Library.Sublist"
begin

section \<open>The tempofb search data: builders and readers\<close>

text \<open>
  A shallow embedding of \<^verbatim>\<open>pkg/tempofb/searchdata_util.go\<close>: the mutable search
  entry and its time range, the page builder, and the readers that look a tag up in an
  encoded entry or page (\<^verbatim>\<open>Get\<close>, \<^verbatim>\<open>FindTag\<close>, \<^verbatim>\<open>ContainsTag\<close>,
  \<^verbatim>\<open>binarySearch\<close>).

  Go strings and byte slices are byte sequences: they are \<open>string\<close> (a list of
  \<open>char\<close>, each one byte). Go's \<^verbatim>\<open>uint64\<close> is \<open>64 word\<close>. Go's \<^verbatim>\<open>int\<close> is
  taken as 64 bits wide and written as \<open>int\<close>, with the wrap-around spelled out where
  the source computes a midpoint.
\<close>

subsection \<open>Byte strings\<close>

type_synonym bytes = string

type_synonym uint64 = "64 word"

subsection \<open>The tag set (SearchDataMap)\<close>

text \<open>
  Modelled from the spec: \<^verbatim>\<open>SearchDataMap\<close>, with \<^verbatim>\<open>NewSearchDataMap\<close>,
  \<^verbatim>\<open>Add\<close> and \<^verbatim>\<open>Range\<close>, is declared in a file of the package that is not
  among the sources. The spec (sections 3 and 4.1) describes it as a deduplicating
  collection of (key, value) pairs: adding a pair that is present is a no-op, and
  \<^verbatim>\<open>Range\<close> visits every distinct pair once, ordered by key and then by value.
  The model keeps the pairs in a list that is strictly ascending in that order.
\<close>

type_synonym SearchDataMap = "(bytes \<times> bytes) list"

text \<open>\<^verbatim>\<open>bytes.Compare\<close>: the lexicographic comparison of two byte strings, -1, 0 or 1.\<close>

fun Compare :: "bytes \<Rightarrow> bytes \<Rightarrow> int" where
  "Compare [] [] = 0"
| "Compare [] (y # ys) = - 1"
| "Compare (x # xs) [] = 1"
| "Compare (x # xs) (y # ys) =
     (if (of_char x :: nat) < of_char y then - 1
      else if (of_char y :: nat) < of_char x then 1
      else Compare xs ys)"

definition pair_less :: "bytes \<times> bytes \<Rightarrow> bytes \<times> bytes \<Rightarrow> bool" where
  "pair_less p q =
     (Compare (fst p) (fst q) = - 1 \<or> (fst p = fst q \<and> Compare (snd p) (snd q) = - 1))"

definition NewSearchDataMap :: SearchDataMap where
  "NewSearchDataMap = []"

fun insert_pair :: "bytes \<times> bytes \<Rightarrow> SearchDataMap \<Rightarrow> SearchDataMap" where
  "insert_pair p [] = [p]"
| "insert_pair p (q # qs) =
     (if p = q then q # qs
      else if pair_less p q then p # q # qs
      else q # insert_pair p qs)"

definition Add :: "bytes \<Rightarrow> bytes \<Rightarrow> SearchDataMap \<Rightarrow> SearchDataMap" where
  "Add k v m = insert_pair (k, v) m"

text \<open>\<^verbatim>\<open>Range(f)\<close> calls \<^verbatim>\<open>f(k, v)\<close> on every pair in order; the callback's effect on
  the caller's state is threaded through.\<close>

definition Range :: "SearchDataMap \<Rightarrow> (bytes \<Rightarrow> bytes \<Rightarrow> 's \<Rightarrow> 's) \<Rightarrow> 's \<Rightarrow> 's" where
  "Range m f st = fold (\<lambda>(k, v). f k v) m st"

subsection \<open>The mutable search entry\<close>

text \<open>\<^verbatim>\<open>Tags\<close> is a Go map, which can be \<^verbatim>\<open>nil\<close>: \<open>None\<close> here.\<close>

record SearchEntryMutable =
  TraceID :: bytes
  Tags :: "SearchDataMap option"
  StartTimeUnixNano :: uint64
  EndTimeUnixNano :: uint64

text \<open>The zero value of the struct.\<close>

definition empty_entry :: SearchEntryMutable where
  "empty_entry = \<lparr>TraceID = [], Tags = None, StartTimeUnixNano = 0, EndTimeUnixNano = 0\<rparr>"

definition AddTag :: "bytes \<Rightarrow> bytes \<Rightarrow> SearchEntryMutable \<Rightarrow> SearchEntryMutable" where
  "AddTag k v s =
     (let s1 = (if Tags s = None then s\<lparr>Tags := Some NewSearchDataMap\<rparr> else s)
      in s1\<lparr>Tags := map_option (Add k v) (Tags s1)\<rparr>)"

definition SetStartTimeUnixNano :: "uint64 \<Rightarrow> SearchEntryMutable \<Rightarrow> SearchEntryMutable" where
  "SetStartTimeUnixNano t s =
     (if t > 0 \<and> (StartTimeUnixNano s = 0 \<or> StartTimeUnixNano s > t)
      then s\<lparr>StartTimeUnixNano := t\<rparr> else s)"

definition SetEndTimeUnixNano :: "uint64 \<Rightarrow> SearchEntryMutable \<Rightarrow> SearchEntryMutable" where
  "SetEndTimeUnixNano t s =
     (if t > 0 \<and> t > EndTimeUnixNano s
      then s\<lparr>EndTimeUnixNano := t\<rparr> else s)"

text \<open>A sequence of calls, in order, each on the entry the previous one left.\<close>

definition set_start_times :: "uint64 list \<Rightarrow> SearchEntryMutable \<Rightarrow> SearchEntryMutable" where
  "set_start_times ts s = fold SetStartTimeUnixNano ts s"

definition set_end_times :: "uint64 list \<Rightarrow> SearchEntryMutable \<Rightarrow> SearchEntryMutable" where
  "set_end_times ts s = fold SetEndTimeUnixNano ts s"

text \<open>The minimum and the maximum of the non-zero values of a list, 0 when there is none.\<close>

definition min_nonzero :: "uint64 list \<Rightarrow> uint64" where
  "min_nonzero ts = (case filter (\<lambda>t. t \<noteq> 0) ts of [] \<Rightarrow> 0 | x # xs \<Rightarrow> Min (set (x # xs)))"

definition max_nonzero :: "uint64 list \<Rightarrow> uint64" where
  "max_nonzero ts = (case filter (\<lambda>t. t \<noteq> 0) ts of [] \<Rightarrow> 0 | x # xs \<Rightarrow> Max (set (x # xs)))"

subsection \<open>Encoded tags as the readers see them\<close>

text \<open>
  Modelled from the spec: the accessors \<^verbatim>\<open>Tags\<close>, \<^verbatim>\<open>TagsLength\<close>, \<^verbatim>\<open>Key\<close>,
  \<^verbatim>\<open>Value\<close> and \<^verbatim>\<open>ValueLength\<close> are generated code of the package that is not
  among the sources. By the wire format of the spec (section 6) a Key-Value record is a
  key and a vector of values, and an entry or a page exposes a vector of such records
  through \<^verbatim>\<open>tags_length\<close> and \<^verbatim>\<open>read_tag_at(index, out_buffer) -> bool\<close> (section
  4.4). The records below are the decoded content of the byte region; a position
  outside a vector is not defined by the wire format, and the model reports it:
  \<^verbatim>\<open>Tags\<close> returns false and leaves the buffer object as it was, \<^verbatim>\<open>Value\<close> fails.
  The accessor \<^verbatim>\<open>Tags(obj, j)\<close> is \<open>Tags_at\<close> here, \<open>Tags\<close> being the field of the
  mutable entry.
\<close>

datatype error = OutOfRange

record KeyValues =
  Key :: bytes
  Values :: "bytes list"

definition ValueLength :: "KeyValues \<Rightarrow> int" where
  "ValueLength kv = int (length (Values kv))"

definition Value :: "KeyValues \<Rightarrow> int \<Rightarrow> error + bytes" where
  "Value kv j = (if 0 \<le> j \<and> j < ValueLength kv then Inr (Values kv ! nat j) else Inl OutOfRange)"

text \<open>The zero value \<^verbatim>\<open>&KeyValues{}\<close>, before any record is read into it.\<close>

definition empty_KeyValues :: KeyValues where
  "empty_KeyValues = \<lparr>Key = [], Values = []\<rparr>"

text \<open>\<^verbatim>\<open>FBTagContainer\<close>: what has \<^verbatim>\<open>Tags\<close> and \<^verbatim>\<open>TagsLength\<close>, that is an encoded entry
  or an encoded page; the interface sees the tag vector only, in positional order.\<close>

type_synonym FBTagContainer = "KeyValues list"

definition TagsLength :: "FBTagContainer \<Rightarrow> int" where
  "TagsLength s = int (length s)"

definition Tags_at :: "FBTagContainer \<Rightarrow> KeyValues \<Rightarrow> int \<Rightarrow> bool \<times> KeyValues" where
  "Tags_at s obj j = (if 0 \<le> j \<and> j < TagsLength s then (True, s ! nat j) else (False, obj))"

record SearchEntry =
  entry_id :: bytes
  entry_start :: uint64
  entry_end :: uint64
  entry_tags :: FBTagContainer

record SearchPage =
  page_entries :: "SearchEntry list"
  page_tags :: FBTagContainer

subsection \<open>Library functions on byte strings\<close>

text \<open>
  \<^verbatim>\<open>bytes.ToLower\<close>, on the bytes \<^verbatim>\<open>A\<close> to \<^verbatim>\<open>Z\<close>. Go's function also maps the
  upper-case letters beyond ASCII of a UTF-8 input; those bytes are left as they are
  here. In both, no byte \<^verbatim>\<open>A\<close> to \<^verbatim>\<open>Z\<close> is left in the result.
\<close>

definition is_upper :: "char \<Rightarrow> bool" where
  "is_upper c = (65 \<le> (of_char c :: nat) \<and> (of_char c :: nat) \<le> 90)"

definition lower_byte :: "char \<Rightarrow> char" where
  "lower_byte c = (if is_upper c then char_of ((of_char c :: nat) + 32) else c)"

definition ToLower :: "bytes \<Rightarrow> bytes" where
  "ToLower k = map lower_byte k"

text \<open>\<^verbatim>\<open>bytes.HasPrefix\<close> and \<^verbatim>\<open>bytes.Contains\<close>: the second argument is a prefix of the
  first, or occurs in it as a contiguous run of bytes.\<close>

fun HasPrefix :: "bytes \<Rightarrow> bytes \<Rightarrow> bool" where
  "HasPrefix s [] = True"
| "HasPrefix [] (p # ps) = False"
| "HasPrefix (x # xs) (p # ps) = (x = p \<and> HasPrefix xs ps)"

fun Contains :: "bytes \<Rightarrow> bytes \<Rightarrow> bool" where
  "Contains [] v = (v = [])"
| "Contains (x # xs) v = (HasPrefix (x # xs) v \<or> Contains xs v)"

subsection \<open>binarySearch\<close>

text \<open>
  The comparator is a Go closure: besides its result it may change what it captured
  (\<^verbatim>\<open>FindTag\<close>'s closure decodes the probed record into the caller's buffer), so it
  takes and returns that state. The loop does not end when the comparator returns a
  value other than 0, -1 and 1, since then no case of the \<^verbatim>\<open>switch\<close> changes
  \<^verbatim>\<open>i\<close> or \<^verbatim>\<open>j\<close>: the result is an option, \<open>None\<close> for a run that never returns.
  The midpoint \<^verbatim>\<open>int(uint(i+j) >> 1)\<close> is the sum read as an unsigned 64-bit number,
  halved.
\<close>

partial_function (option) binarySearch_loop ::
  "(int \<Rightarrow> 's \<Rightarrow> int \<times> 's) \<Rightarrow> int \<Rightarrow> int \<Rightarrow> 's \<Rightarrow> (int \<times> 's) option" where
  [code]: "binarySearch_loop compare i j st =
     (if i < j then
        (let h = ((i + j) mod 2 ^ 64) div 2 in
         case compare h st of (c, st') \<Rightarrow>
           if c = 0 then Some (h, st')
           else if c = - 1 then binarySearch_loop compare i h st'
           else if c = 1 then binarySearch_loop compare (h + 1) j st'
           else binarySearch_loop compare i j st')
      else Some (- 1, st))"

definition binarySearch ::
  "int \<Rightarrow> (int \<Rightarrow> 's \<Rightarrow> int \<times> 's) \<Rightarrow> 's \<Rightarrow> (int \<times> 's) option" where
  "binarySearch n compare st = binarySearch_loop compare 0 n st"

text \<open>A comparator without side effects, as a closure that leaves the state alone.\<close>

definition pure_compare :: "(int \<Rightarrow> int) \<Rightarrow> int \<Rightarrow> unit \<Rightarrow> int \<times> unit" where
  "pure_compare cmp i st = (cmp i, st)"

subsection \<open>FindTag, ContainsTag, Contains and Get\<close>

text \<open>The closure that \<^verbatim>\<open>FindTag\<close> passes to \<^verbatim>\<open>binarySearch\<close>: it reads record \<open>i\<close>
  into the buffer \<open>kv\<close> and compares the record's key with \<open>k\<close>.\<close>

definition FindTag_compare :: "FBTagContainer \<Rightarrow> bytes \<Rightarrow> int \<Rightarrow> KeyValues \<Rightarrow> int \<times> KeyValues" where
  "FindTag_compare s k i kv = (let kv' = snd (Tags_at s kv i) in (Compare (Key kv') k, kv'))"

text \<open>The result is the buffer when a record matched and \<^verbatim>\<open>nil\<close> (the inner
  \<open>None\<close>) otherwise; the outer option is the one of \<open>binarySearch\<close>.\<close>

definition FindTag :: "FBTagContainer \<Rightarrow> KeyValues \<Rightarrow> bytes \<Rightarrow> KeyValues option option" where
  "FindTag s kv k =
     (case binarySearch (TagsLength s) (FindTag_compare s k) kv of
        None \<Rightarrow> None
      | Some (idx, kv') \<Rightarrow> if idx \<ge> 0 then Some (Some kv') else Some None)"

text \<open>The loop of \<^verbatim>\<open>ContainsTag\<close> over the values of the record found.\<close>

function values_contain :: "KeyValues \<Rightarrow> bytes \<Rightarrow> int \<Rightarrow> int \<Rightarrow> error + bool" where
  "values_contain kv v j l =
     (if j < l then
        (case Value kv j of
           Inl e \<Rightarrow> Inl e
         | Inr x \<Rightarrow> if Contains x v then Inr True else values_contain kv v (j + 1) l)
      else Inr False)"
  by pat_completeness auto
termination
  by (relation "measure (\<lambda>(kv, v, j, l). nat (l - j))") auto

definition ContainsTag :: "FBTagContainer \<Rightarrow> KeyValues \<Rightarrow> bytes \<Rightarrow> bytes \<Rightarrow> (error + bool) option" where
  "ContainsTag s kv k v =
     (case FindTag s kv k of
        None \<Rightarrow> None
      | Some None \<Rightarrow> Some (Inr False)
      | Some (Some kv') \<Rightarrow> Some (values_contain kv' v 0 (ValueLength kv')))"

definition SearchEntry_Contains ::
  "SearchEntry \<Rightarrow> bytes \<Rightarrow> bytes \<Rightarrow> KeyValues \<Rightarrow> (error + bool) option" where
  "SearchEntry_Contains s k v buffer = ContainsTag (entry_tags s) buffer k v"

text \<open>The loop of \<^verbatim>\<open>Get\<close>, from index \<open>i\<close> on.\<close>

function Get_loop :: "SearchEntry \<Rightarrow> bytes \<Rightarrow> KeyValues \<Rightarrow> int \<Rightarrow> error + bytes" where
  "Get_loop s kb kv i =
     (if i < TagsLength (entry_tags s) then
        (let kv' = snd (Tags_at (entry_tags s) kv i) in
         if Key kv' = kb then Value kv' 0 else Get_loop s kb kv' (i + 1))
      else Inr [])"
  by pat_completeness auto
termination
  by (relation "measure (\<lambda>(s, kb, kv, i). nat (TagsLength (entry_tags s) - i))") auto

definition Get :: "SearchEntry \<Rightarrow> bytes \<Rightarrow> error + bytes" where
  "Get s k = Get_loop s (ToLower k) empty_KeyValues 0"

subsection \<open>The buffer builder\<close>

text \<open>
  Modelled from the spec: the low-level buffer primitive (\<^verbatim>\<open>flatbuffers.Builder\<close> with
  \<^verbatim>\<open>CreateByteString\<close>, \<^verbatim>\<open>StartVector\<close>, \<^verbatim>\<open>PrependUOffsetT\<close>, \<^verbatim>\<open>EndVector\<close>,
  \<^verbatim>\<open>Finish\<close>, \<^verbatim>\<open>Reset\<close>) is an external collaborator that the spec takes as given
  (section 1), and the functions that start, fill and end a table
  (\<^verbatim>\<open>SearchEntryStart\<close>, \<^verbatim>\<open>SearchEntryAddId\<close>, \<dots>, \<^verbatim>\<open>SearchPageEnd\<close>) are generated
  code of the package that is not among the sources. What the spec says of them: the
  buffer is a growable region with length-prefixed byte strings, offset vectors and inline
  scalars; it stores the elements of a vector in the reverse of the order in which they
  were appended (sections 1, 3 and 4.1); there is one finish marker per buffer; a reset
  puts the write position back to zero.

  The model keeps the buffer as a list of cells, the lowest address first. The buffer
  is filled from its end towards its start, so a write puts a cell in front of the list,
  and an offset is the distance of an object's first cell from the end of the buffer,
  which later writes do not change. A vector is a length cell followed by its elements;
  a byte string and a table are one cell each. Offsets are natural numbers: the limit of
  the buffer's size is not modelled.
\<close>

datatype slot = SlotOffset nat | SlotUint64 uint64

datatype cell = CBytes bytes | COffset nat | CLength nat | CTable "(nat \<times> slot) list"

record Builder =
  cells :: "cell list"
  slots :: "(nat \<times> slot) list"
  finished :: bool

definition NewBuilder :: Builder where
  "NewBuilder = \<lparr>cells = [], slots = [], finished = False\<rparr>"

definition Offset :: "Builder \<Rightarrow> nat" where
  "Offset b = length (cells b)"

definition CreateByteString :: "bytes \<Rightarrow> Builder \<Rightarrow> nat \<times> Builder" where
  "CreateByteString bs b = (let b1 = b\<lparr>cells := CBytes bs # cells b\<rparr> in (Offset b1, b1))"

definition StartVector :: "nat \<Rightarrow> Builder \<Rightarrow> Builder" where
  "StartVector n b = b"

definition PrependUOffsetT :: "nat \<Rightarrow> Builder \<Rightarrow> Builder" where
  "PrependUOffsetT off b = b\<lparr>cells := COffset off # cells b\<rparr>"

definition EndVector :: "nat \<Rightarrow> Builder \<Rightarrow> nat \<times> Builder" where
  "EndVector n b = (let b1 = b\<lparr>cells := CLength n # cells b\<rparr> in (Offset b1, b1))"

definition StartObject :: "Builder \<Rightarrow> Builder" where
  "StartObject b = b\<lparr>slots := []\<rparr>"

definition PrependUOffsetTSlot :: "nat \<Rightarrow> nat \<Rightarrow> Builder \<Rightarrow> Builder" where
  "PrependUOffsetTSlot field off b = b\<lparr>slots := (field, SlotOffset off) # slots b\<rparr>"

definition PrependUint64Slot :: "nat \<Rightarrow> uint64 \<Rightarrow> Builder \<Rightarrow> Builder" where
  "PrependUint64Slot field x b = b\<lparr>slots := (field, SlotUint64 x) # slots b\<rparr>"

definition EndObject :: "Builder \<Rightarrow> nat \<times> Builder" where
  "EndObject b = (let b1 = b\<lparr>cells := CTable (slots b) # cells b, slots := []\<rparr> in (Offset b1, b1))"

definition Builder_Finish :: "nat \<Rightarrow> Builder \<Rightarrow> Builder" where
  "Builder_Finish root b = b\<lparr>cells := COffset root # cells b, finished := True\<rparr>"

definition FinishedBytes :: "Builder \<Rightarrow> cell list" where
  "FinishedBytes b = cells b"

definition Builder_Reset :: "Builder \<Rightarrow> Builder" where
  "Builder_Reset b = b\<lparr>cells := [], slots := [], finished := False\<rparr>"

text \<open>The generated table functions, with the fields in the order of the wire format
  (spec, section 6).\<close>

definition KeyValuesStart :: "Builder \<Rightarrow> Builder" where
  "KeyValuesStart b = StartObject b"

definition KeyValuesAddKey :: "nat \<Rightarrow> Builder \<Rightarrow> Builder" where
  "KeyValuesAddKey key b = PrependUOffsetTSlot 0 key b"

definition KeyValuesAddValue :: "nat \<Rightarrow> Builder \<Rightarrow> Builder" where
  "KeyValuesAddValue v b = PrependUOffsetTSlot 1 v b"

definition KeyValuesEnd :: "Builder \<Rightarrow> nat \<times> Builder" where
  "KeyValuesEnd b = EndObject b"

definition SearchEntryStart :: "Builder \<Rightarrow> Builder" where
  "SearchEntryStart b = StartObject b"

definition SearchEntryAddId :: "nat \<Rightarrow> Builder \<Rightarrow> Builder" where
  "SearchEntryAddId idOffset b = PrependUOffsetTSlot 0 idOffset b"

definition SearchEntryAddStartTimeUnixNano :: "uint64 \<Rightarrow> Builder \<Rightarrow> Builder" where
  "SearchEntryAddStartTimeUnixNano t b = PrependUint64Slot 1 t b"

definition SearchEntryAddEndTimeUnixNano :: "uint64 \<Rightarrow> Builder \<Rightarrow> Builder" where
  "SearchEntryAddEndTimeUnixNano t b = PrependUint64Slot 2 t b"

definition SearchEntryAddTags :: "nat \<Rightarrow> Builder \<Rightarrow> Builder" where
  "SearchEntryAddTags tags b = PrependUOffsetTSlot 3 tags b"

definition SearchEntryEnd :: "Builder \<Rightarrow> nat \<times> Builder" where
  "SearchEntryEnd b = EndObject b"

definition SearchPageStartEntriesVector :: "nat \<Rightarrow> Builder \<Rightarrow> Builder" where
  "SearchPageStartEntriesVector n b = StartVector n b"

definition SearchPageStart :: "Builder \<Rightarrow> Builder" where
  "SearchPageStart b = StartObject b"

definition SearchPageAddEntries :: "nat \<Rightarrow> Builder \<Rightarrow> Builder" where
  "SearchPageAddEntries entries b = PrependUOffsetTSlot 0 entries b"

definition SearchPageAddTags :: "nat \<Rightarrow> Builder \<Rightarrow> Builder" where
  "SearchPageAddTags tags b = PrependUOffsetTSlot 1 tags b"

definition SearchPageEnd :: "Builder \<Rightarrow> nat \<times> Builder" where
  "SearchPageEnd b = EndObject b"

subsection \<open>Writing a tag set\<close>

text \<open>
  Modelled from the spec: \<^verbatim>\<open>SearchDataMap.WriteToBuilder\<close> is in the file of the
  package that is not among the sources. By the spec (sections 3, 4.1 and 6) it encodes
  the set as a vector of Key-Value records, one record for each key with the values
  that share it, the keys lower-cased at write time; it goes through the pairs in
  ascending order and relies on the buffer's reversal of a vector.
\<close>

fun group_by_key :: "SearchDataMap \<Rightarrow> (bytes \<times> bytes list) list" where
  "group_by_key [] = []"
| "group_by_key ((k, v) # ps) =
     (case group_by_key ps of
        [] \<Rightarrow> [(k, [v])]
      | (k', vs) # gs \<Rightarrow> if k = k' then (k, v # vs) # gs else (k, [v]) # (k', vs) # gs)"

fun write_strings :: "bytes list \<Rightarrow> Builder \<Rightarrow> nat list \<times> Builder" where
  "write_strings [] b = ([], b)"
| "write_strings (v # vs) b =
     (case CreateByteString v b of (off, b1) \<Rightarrow>
        case write_strings vs b1 of (offs, b2) \<Rightarrow> (off # offs, b2))"

definition write_vector :: "nat list \<Rightarrow> Builder \<Rightarrow> nat \<times> Builder" where
  "write_vector offs b =
     EndVector (length offs) (fold PrependUOffsetT offs (StartVector (length offs) b))"

definition write_KeyValues :: "bytes \<times> bytes list \<Rightarrow> Builder \<Rightarrow> nat \<times> Builder" where
  "write_KeyValues g b =
     (case CreateByteString (ToLower (fst g)) b of (ko, b1) \<Rightarrow>
      case write_strings (snd g) b1 of (vos, b2) \<Rightarrow>
      case write_vector vos b2 of (vv, b3) \<Rightarrow>
        KeyValuesEnd (KeyValuesAddValue vv (KeyValuesAddKey ko (KeyValuesStart b3))))"

fun write_records :: "(bytes \<times> bytes list) list \<Rightarrow> Builder \<Rightarrow> nat list \<times> Builder" where
  "write_records [] b = ([], b)"
| "write_records (g # gs) b =
     (case write_KeyValues g b of (off, b1) \<Rightarrow>
        case write_records gs b1 of (offs, b2) \<Rightarrow> (off # offs, b2))"

definition SearchDataMap_WriteToBuilder :: "SearchDataMap \<Rightarrow> Builder \<Rightarrow> nat \<times> Builder" where
  "SearchDataMap_WriteToBuilder m b =
     (case write_records (group_by_key m) b of (offs, b1) \<Rightarrow> write_vector offs b1)"

subsection \<open>Writing an entry, and the page builder\<close>

text \<open>\<^verbatim>\<open>WriteToBuilder\<close> has a pointer receiver and sets a \<^verbatim>\<open>nil\<close> tag set to an empty
  one: the entry is returned with the offset and the builder.\<close>

definition WriteToBuilder :: "SearchEntryMutable \<Rightarrow> Builder \<Rightarrow> nat \<times> SearchEntryMutable \<times> Builder" where
  "WriteToBuilder s b =
     (let m = (case Tags s of None \<Rightarrow> NewSearchDataMap | Some m \<Rightarrow> m);
          s1 = s\<lparr>Tags := Some m\<rparr>
      in case CreateByteString (TraceID s1) b of (idOffset, b1) \<Rightarrow>
         case SearchDataMap_WriteToBuilder m b1 of (tagOffset, b2) \<Rightarrow>
         case SearchEntryEnd
                (SearchEntryAddTags tagOffset
                  (SearchEntryAddEndTimeUnixNano (EndTimeUnixNano s1)
                    (SearchEntryAddStartTimeUnixNano (StartTimeUnixNano s1)
                      (SearchEntryAddId idOffset (SearchEntryStart b2))))) of
           (off, b3) \<Rightarrow> (off, s1, b3))"

record SearchPageBuilder =
  builder :: Builder
  allTags :: SearchDataMap
  pageEntries :: "nat list"

definition NewSearchPageBuilder :: SearchPageBuilder where
  "NewSearchPageBuilder = \<lparr>builder = NewBuilder, allTags = NewSearchDataMap, pageEntries = []\<rparr>"

text \<open>\<^verbatim>\<open>AddData\<close> returns the number of bytes written, here the difference of the two
  offsets of the model, with the entry and the page builder as the call leaves them.\<close>

definition AddData ::
  "SearchEntryMutable \<Rightarrow> SearchPageBuilder \<Rightarrow> int \<times> SearchEntryMutable \<times> SearchPageBuilder" where
  "AddData data b =
     (let tags = (case Tags data of
                    None \<Rightarrow> allTags b
                  | Some m \<Rightarrow> Range m (\<lambda>k v t. Add k v t) (allTags b));
          oldOffset = Offset (builder b)
      in case WriteToBuilder data (builder b) of (offset, data1, bld) \<Rightarrow>
           (int offset - int oldOffset, data1,
            b\<lparr>builder := bld, allTags := tags, pageEntries := pageEntries b @ [offset]\<rparr>))"

definition Finish :: "SearchPageBuilder \<Rightarrow> cell list \<times> SearchPageBuilder" where
  "Finish b =
     (let n = length (pageEntries b);
          bld1 = fold PrependUOffsetT (pageEntries b) (SearchPageStartEntriesVector n (builder b))
      in case EndVector n bld1 of (entryVector, bld2) \<Rightarrow>
         case SearchDataMap_WriteToBuilder (allTags b) bld2 of (tagOffset, bld3) \<Rightarrow>
         case SearchPageEnd
                (SearchPageAddTags tagOffset
                  (SearchPageAddEntries entryVector (SearchPageStart bld3))) of
           (batch, bld4) \<Rightarrow>
             (let bld5 = Builder_Finish batch bld4
              in (FinishedBytes bld5, b\<lparr>builder := bld5\<rparr>)))"

definition Reset :: "SearchPageBuilder \<Rightarrow> SearchPageBuilder" where
  "Reset b = b\<lparr>builder := Builder_Reset (builder b), pageEntries := [],
               allTags := NewSearchDataMap\<rparr>"

text \<open>A sequence of calls of \<^verbatim>\<open>AddData\<close>, one for each entry, in order.\<close>

definition add_all :: "SearchEntryMutable list \<Rightarrow> SearchPageBuilder \<Rightarrow> SearchPageBuilder" where
  "add_all es b = fold (\<lambda>e b. snd (snd (AddData e b))) es b"

subsection \<open>Reading a finished buffer\<close>

text \<open>
  Modelled from the spec: the generated readers (\<^verbatim>\<open>GetRootAsSearchPage\<close>,
  \<^verbatim>\<open>Entries\<close>, \<^verbatim>\<open>Tags\<close>, \<^verbatim>\<open>Id\<close>, \<dots>) are not among the sources. They follow the
  wire format of section 6: a buffer starts with the offset of its root table, a table
  gives its fields, an offset leads to a byte string, a vector or a table. A vector is
  read from its first element on, that is from the lowest address. A read that does
  not find what it expects gives \<open>None\<close>.
\<close>

definition cells_at :: "cell list \<Rightarrow> nat \<Rightarrow> cell list option" where
  "cells_at buf off =
     (if 0 < off \<and> off \<le> length buf then Some (drop (length buf - off) buf) else None)"

definition read_bytes :: "cell list \<Rightarrow> nat \<Rightarrow> bytes option" where
  "read_bytes buf off =
     (case cells_at buf off of Some (CBytes bs # rest) \<Rightarrow> Some bs | _ \<Rightarrow> None)"

definition cell_offset :: "cell \<Rightarrow> nat option" where
  "cell_offset c = (case c of COffset off \<Rightarrow> Some off | _ \<Rightarrow> None)"

definition read_vector :: "cell list \<Rightarrow> nat \<Rightarrow> nat list option" where
  "read_vector buf off =
     (case cells_at buf off of
        Some (CLength n # rest) \<Rightarrow>
          if n \<le> length rest then those (map cell_offset (take n rest)) else None
      | _ \<Rightarrow> None)"

definition read_table :: "cell list \<Rightarrow> nat \<Rightarrow> (nat \<times> slot) list option" where
  "read_table buf off =
     (case cells_at buf off of Some (CTable fs # rest) \<Rightarrow> Some fs | _ \<Rightarrow> None)"

definition field_offset :: "(nat \<times> slot) list \<Rightarrow> nat \<Rightarrow> nat option" where
  "field_offset fs i = (case map_of fs i of Some (SlotOffset off) \<Rightarrow> Some off | _ \<Rightarrow> None)"

definition field_uint64 :: "(nat \<times> slot) list \<Rightarrow> nat \<Rightarrow> uint64 option" where
  "field_uint64 fs i = (case map_of fs i of Some (SlotUint64 x) \<Rightarrow> Some x | _ \<Rightarrow> None)"

definition decode_KeyValues :: "cell list \<Rightarrow> nat \<Rightarrow> KeyValues option" where
  "decode_KeyValues buf off =
     do {
       fs \<leftarrow> read_table buf off;
       ko \<leftarrow> field_offset fs 0;
       k \<leftarrow> read_bytes buf ko;
       vo \<leftarrow> field_offset fs 1;
       vos \<leftarrow> read_vector buf vo;
       vs \<leftarrow> those (map (read_bytes buf) vos);
       Some \<lparr>Key = k, Values = vs\<rparr>
     }"

definition decode_tags :: "cell list \<Rightarrow> nat \<Rightarrow> FBTagContainer option" where
  "decode_tags buf off =
     do {
       offs \<leftarrow> read_vector buf off;
       those (map (decode_KeyValues buf) offs)
     }"

definition decode_SearchEntry :: "cell list \<Rightarrow> nat \<Rightarrow> SearchEntry option" where
  "decode_SearchEntry buf off =
     do {
       fs \<leftarrow> read_table buf off;
       io \<leftarrow> field_offset fs 0;
       i \<leftarrow> read_bytes buf io;
       st \<leftarrow> field_uint64 fs 1;
       en \<leftarrow> field_uint64 fs 2;
       tgo \<leftarrow> field_offset fs 3;
       tg \<leftarrow> decode_tags buf tgo;
       Some \<lparr>entry_id = i, entry_start = st, entry_end = en, entry_tags = tg\<rparr>
     }"

definition decode_SearchPage :: "cell list \<Rightarrow> SearchPage option" where
  "decode_SearchPage buf =
     (case buf of
        COffset root # rest \<Rightarrow>
          do {
            fs \<leftarrow> read_table buf root;
            eo \<leftarrow> field_offset fs 0;
            eos \<leftarrow> read_vector buf eo;
            es \<leftarrow> those (map (decode_SearchEntry buf) eos);
            tgo \<leftarrow> field_offset fs 1;
            tg \<leftarrow> decode_tags buf tgo;
            Some \<lparr>page_entries = es, page_tags = tg\<rparr>
          }
      | _ \<Rightarrow> None)"

text \<open>What an entry and a tag set are expected to read back as: the records of the tag
  set in the reverse of the ascending order in which they were written, that is in
  descending key order, with lower-cased keys.\<close>

definition encode_record :: "bytes \<times> bytes list \<Rightarrow> KeyValues" where
  "encode_record g = \<lparr>Key = ToLower (fst g), Values = rev (snd g)\<rparr>"

definition encode_tags :: "SearchDataMap \<Rightarrow> FBTagContainer" where
  "encode_tags m = rev (map encode_record (group_by_key m))"

definition entry_tag_set :: "SearchEntryMutable \<Rightarrow> SearchDataMap" where
  "entry_tag_set e = (case Tags e of None \<Rightarrow> NewSearchDataMap | Some m \<Rightarrow> m)"

definition encode_entry :: "SearchEntryMutable \<Rightarrow> SearchEntry" where
  "encode_entry e =
     \<lparr>entry_id = TraceID e, entry_start = StartTimeUnixNano e, entry_end = EndTimeUnixNano e,
      entry_tags = encode_tags (entry_tag_set e)\<rparr>"

text \<open>The trace identifiers of the entries of a finished page, by position in its
  entries vector.\<close>

definition page_entry_ids :: "cell list \<Rightarrow> bytes list option" where
  "page_entry_ids buf =
     (case decode_SearchPage buf of None \<Rightarrow> None | Some p \<Rightarrow> Some (map entry_id (page_entries p)))"

subsection \<open>What the readers expect of an encoded tag vector\<close>

text \<open>
  The invariant of the spec's data model (section 3): read from index 0 on, the keys of
  a tag vector are in descending order and distinct. A vector's length fits Go's
  \<^verbatim>\<open>int\<close>, and every record holds at least one value.
\<close>

definition descending_keys :: "FBTagContainer \<Rightarrow> bool" where
  "descending_keys s = sorted_wrt (\<lambda>a b. Compare (Key a) (Key b) = 1) s"

definition encoded_tags :: "FBTagContainer \<Rightarrow> bool" where
  "encoded_tags s = (descending_keys s \<and> TagsLength s < 2 ^ 63)"

definition has_values :: "FBTagContainer \<Rightarrow> bool" where
  "has_values s = list_all (\<lambda>t. Values t \<noteq> []) s"

definition no_upper :: "bytes \<Rightarrow> bool" where
  "no_upper k = list_all (\<lambda>c. \<not> is_upper c) k"

definition lower_keys :: "FBTagContainer \<Rightarrow> bool" where
  "lower_keys s = list_all (\<lambda>t. no_upper (Key t)) s"

text \<open>The lookup that the spec describes for \<^verbatim>\<open>get\<close> (section 4.4): lower-case the
  key, run the search of section 4.5, return the first value of the record found and
  the empty string when there is none.\<close>

definition Get_by_search :: "SearchEntry \<Rightarrow> KeyValues \<Rightarrow> bytes \<Rightarrow> (error + bytes) option" where
  "Get_by_search s kv k =
     (case FindTag (entry_tags s) kv (ToLower k) of
        None \<Rightarrow> None
      | Some None \<Rightarrow> Some (Inr [])
      | Some (Some t) \<Rightarrow> Some (Value t 0))"

text \<open>A comparator that is consistent with a total order over the positions
  \<open>0, \<dots>, n - 1\<close>: it answers -1 (the target is before \<open>i\<close>), 0 (it is exactly \<open>i\<close>) or
  1 (it is after \<open>i\<close>), and once the target is not after \<open>i\<close> it is before every later
  position.\<close>

definition consistent :: "int \<Rightarrow> (int \<Rightarrow> int) \<Rightarrow> bool" where
  "consistent n cmp =
     (list_all (\<lambda>i. cmp i = - 1 \<or> cmp i = 0 \<or> cmp i = 1) [0..n - 1] \<and>
      list_all (\<lambda>i. cmp i = 1 \<or> list_all (\<lambda>j. cmp j = - 1) [i + 1..n - 1]) [0..n - 1])"

text \<open>The first index at which the comparator reports 0, and -1 when there is none.\<close>

definition first_match :: "int \<Rightarrow> (int \<Rightarrow> int) \<Rightarrow> int" where
  "first_match n cmp = (case find (\<lambda>i. cmp i = 0) [0..n - 1] of None \<Rightarrow> - 1 | Some i \<Rightarrow> i)"

section \<open>Time range\<close>

lemma min_nonzero_Nil: "min_nonzero [] = 0"
  by (simp add: min_nonzero_def)

lemma max_nonzero_Nil: "max_nonzero [] = 0"
  by (simp add: max_nonzero_def)

lemma min_nonzero_zero_iff: "min_nonzero ts = 0 \<longleftrightarrow> (\<forall>t \<in> set ts. t = 0)"
proof (cases "filter (\<lambda>t. t \<noteq> 0) ts")
  case Nil
  then show ?thesis
    by (auto simp: min_nonzero_def filter_empty_conv)
next
  case (Cons x xs)
  have "Min (set (x # xs)) \<in> set (x # xs)"
    by (rule Min_in) simp_all
  then have "Min (set (x # xs)) \<in> set (filter (\<lambda>t. t \<noteq> 0) ts)"
    by (simp only: Cons)
  then have nz: "Min (set (x # xs)) \<noteq> 0"
    by simp
  have "x \<in> set (filter (\<lambda>t. t \<noteq> 0) ts)"
    by (simp only: Cons) simp
  then have "\<exists>t \<in> set ts. t \<noteq> 0"
    by auto
  with nz show ?thesis
    by (auto simp: min_nonzero_def Cons)
qed

lemma min_nonzero_snoc:
  "min_nonzero (ts @ [t]) =
     (if t = 0 then min_nonzero ts
      else if min_nonzero ts = 0 then t
      else min t (min_nonzero ts))"
proof (cases "filter (\<lambda>t. t \<noteq> 0) ts")
  case Nil
  then show ?thesis
    by (simp add: min_nonzero_def)
next
  case (Cons x xs)
  then have "min_nonzero ts \<noteq> 0"
    using min_nonzero_zero_iff [of ts] by (auto simp: filter_eq_Cons_iff)
  moreover have "min_nonzero ts = Min (set (x # xs))"
    by (simp add: min_nonzero_def Cons)
  moreover have "t \<noteq> 0 \<Longrightarrow> min_nonzero (ts @ [t]) = Min (insert t (set (x # xs)))"
    by (simp add: min_nonzero_def Cons insert_commute)
  moreover have "t = 0 \<Longrightarrow> min_nonzero (ts @ [t]) = min_nonzero ts"
    by (simp add: min_nonzero_def)
  ultimately show ?thesis
    by (simp del: set_simps)
qed

lemma max_nonzero_snoc:
  "max_nonzero (ts @ [t]) = (if t = 0 then max_nonzero ts else max t (max_nonzero ts))"
proof (cases "filter (\<lambda>t. t \<noteq> 0) ts")
  case Nil
  then show ?thesis
    by (simp add: max_nonzero_def max_def)
next
  case (Cons x xs)
  have "max_nonzero ts = Max (set (x # xs))"
    by (simp add: max_nonzero_def Cons)
  moreover have "t \<noteq> 0 \<Longrightarrow> max_nonzero (ts @ [t]) = Max (insert t (set (x # xs)))"
    by (simp add: max_nonzero_def Cons insert_commute)
  moreover have "t = 0 \<Longrightarrow> max_nonzero (ts @ [t]) = max_nonzero ts"
    by (simp add: max_nonzero_def)
  ultimately show ?thesis
    by (simp del: set_simps)
qed

lemma start_step:
  "(if t > 0 \<and> (m = 0 \<or> m > t) then t else m) =
     (if t = 0 then m else if m = 0 then t else min t m)" for t m :: uint64
  by (cases "t = 0"; cases "m = 0"; simp add: min_def word_neq_0_conv not_le less_imp_le;
      fastforce)

lemma end_step:
  "(if t > 0 \<and> t > m then t else m) = (if t = 0 then m else max t m)" for t m :: uint64
  by (cases "t = 0"; simp add: max_def word_neq_0_conv not_le less_imp_le; fastforce)

lemma StartTime_SetStart:
  "StartTimeUnixNano (SetStartTimeUnixNano t s) =
     (if t > 0 \<and> (StartTimeUnixNano s = 0 \<or> StartTimeUnixNano s > t) then t
      else StartTimeUnixNano s)"
  unfolding SetStartTimeUnixNano_def by (cases "StartTimeUnixNano s = 0") auto

lemma EndTime_SetEnd:
  "EndTimeUnixNano (SetEndTimeUnixNano t s) =
     (if t > 0 \<and> t > EndTimeUnixNano s then t else EndTimeUnixNano s)"
  unfolding SetEndTimeUnixNano_def by auto

lemma start_after_calls:
  "StartTimeUnixNano (set_start_times ts empty_entry) = min_nonzero ts"
proof (induction ts rule: rev_induct)
  case Nil
  show ?case
    by (simp add: set_start_times_def empty_entry_def min_nonzero_Nil)
next
  case (snoc t ts)
  have "set_start_times (ts @ [t]) empty_entry =
          SetStartTimeUnixNano t (set_start_times ts empty_entry)"
    by (simp add: set_start_times_def)
  then show ?case
    by (simp only: StartTime_SetStart snoc start_step min_nonzero_snoc)
qed

lemma end_after_calls:
  "EndTimeUnixNano (set_end_times ts empty_entry) = max_nonzero ts"
proof (induction ts rule: rev_induct)
  case Nil
  show ?case
    by (simp add: set_end_times_def empty_entry_def max_nonzero_Nil)
next
  case (snoc t ts)
  have "set_end_times (ts @ [t]) empty_entry =
          SetEndTimeUnixNano t (set_end_times ts empty_entry)"
    by (simp add: set_end_times_def)
  then show ?case
    by (simp only: EndTime_SetEnd snoc end_step max_nonzero_snoc)
qed

text \<open>
  Claim C5. On a fresh entry, any sequence of calls of \<^verbatim>\<open>SetStartTimeUnixNano\<close> leaves
  the start time at the minimum of the non-zero arguments (0 when there is none), and
  any sequence of calls of \<^verbatim>\<open>SetEndTimeUnixNano\<close> leaves the end time at the maximum
  of the non-zero arguments (0 when there is none); zero arguments are ignored. The
  start inputs 0, 5, 3, 0, 9 give 3 and the end inputs 0, 5, 9, 3 give 9.
\<close>

theorem time_range_min_max:
  "StartTimeUnixNano (set_start_times ts empty_entry) = min_nonzero ts
   \<and> EndTimeUnixNano (set_end_times us empty_entry) = max_nonzero us
   \<and> SetStartTimeUnixNano 0 s = s \<and> SetEndTimeUnixNano 0 s = s
   \<and> StartTimeUnixNano (set_start_times [0, 5, 3, 0, 9] empty_entry) = 3
   \<and> EndTimeUnixNano (set_end_times [0, 5, 9, 3] empty_entry) = 9"
proof -
  have "StartTimeUnixNano (set_start_times [0, 5, 3, 0, 9] empty_entry) = 3"
    by (simp add: set_start_times_def SetStartTimeUnixNano_def empty_entry_def)
  moreover have "EndTimeUnixNano (set_end_times [0, 5, 9, 3] empty_entry) = 9"
    by (simp add: set_end_times_def SetEndTimeUnixNano_def empty_entry_def)
  moreover have "SetStartTimeUnixNano 0 s = s" "SetEndTimeUnixNano 0 s = s"
    by (simp_all add: SetStartTimeUnixNano_def SetEndTimeUnixNano_def)
  ultimately show ?thesis
    by (simp only: start_after_calls end_after_calls simp_thms)
qed

section \<open>Byte strings and the loops of the readers\<close>

declare values_contain.simps [simp del]
declare Get_loop.simps [simp del]

lemma Compare_range: "Compare a b = - 1 \<or> Compare a b = 0 \<or> Compare a b = 1"
  by (induction a b rule: Compare.induct) auto

lemma of_char_nat_eq: "(of_char x :: nat) = of_char y \<longleftrightarrow> x = y"
  by (metis char_of_char)

lemma Compare_eq_0: "Compare a b = 0 \<longleftrightarrow> a = b"
  by (induction a b rule: Compare.induct) (auto simp: of_char_nat_eq)

lemma Compare_swap: "Compare b a = - Compare a b"
  by (induction a b rule: Compare.induct) auto

lemma HasPrefix_iff: "HasPrefix s p \<longleftrightarrow> (\<exists>q. s = p @ q)"
  by (induction s p rule: HasPrefix.induct) auto

lemma Contains_iff: "Contains b v \<longleftrightarrow> (\<exists>p q. b = p @ v @ q)"
proof (induction b)
  case Nil
  show ?case by auto
next
  case (Cons x xs)
  show ?case
  proof
    assume "Contains (x # xs) v"
    then consider "HasPrefix (x # xs) v" | "Contains xs v" by auto
    then show "\<exists>p q. x # xs = p @ v @ q"
    proof cases
      case 1
      then obtain q where "x # xs = v @ q" by (auto simp: HasPrefix_iff)
      then have "x # xs = [] @ v @ q" by simp
      then show ?thesis by blast
    next
      case 2
      then obtain p q where "xs = p @ v @ q" using Cons.IH by blast
      then have "x # xs = (x # p) @ v @ q" by simp
      then show ?thesis by blast
    qed
  next
    assume "\<exists>p q. x # xs = p @ v @ q"
    then obtain p q where pq: "x # xs = p @ v @ q" by blast
    show "Contains (x # xs) v"
    proof (cases p)
      case Nil
      with pq have "HasPrefix (x # xs) v" by (auto simp: HasPrefix_iff)
      then show ?thesis by simp
    next
      case (Cons y ys)
      with pq have "xs = ys @ v @ q" by simp
      then have "Contains xs v" using Cons.IH by blast
      then show ?thesis by simp
    qed
  qed
qed

lemma values_contain_eq:
  "0 \<le> j \<Longrightarrow> l = ValueLength kv \<Longrightarrow>
   values_contain kv v j l = Inr (\<exists>x \<in> set (drop (nat j) (Values kv)). Contains x v)"
proof (induction kv v j l rule: values_contain.induct)
  case (1 kv v j l)
  show ?case
  proof (cases "j < l")
    case False
    then have "drop (nat j) (Values kv) = []"
      using 1 by (simp add: ValueLength_def)
    with False show ?thesis
      by (subst values_contain.simps) simp
  next
    case True
    then have len: "nat j < length (Values kv)"
      using 1 by (simp add: ValueLength_def)
    have val: "Value kv j = Inr (Values kv ! nat j)"
      using True 1 by (simp add: Value_def)
    have dr: "drop (nat j) (Values kv) = Values kv ! nat j # drop (nat (j + 1)) (Values kv)"
      using len 1 by (simp add: Cons_nth_drop_Suc nat_add_distrib)
    show ?thesis
    proof (cases "Contains (Values kv ! nat j) v")
      case c: True
      then show ?thesis
        using True val by (subst values_contain.simps) (simp add: dr)
    next
      case c: False
      have "values_contain kv v (j + 1) l =
              Inr (\<exists>x \<in> set (drop (nat (j + 1)) (Values kv)). Contains x v)"
        using 1 True val c by simp
      then show ?thesis
        using True val c by (subst values_contain.simps) (simp add: dr)
    qed
  qed
qed

lemma Get_loop_eq:
  "0 \<le> i \<Longrightarrow>
   Get_loop s kb kv i =
     (case find (\<lambda>t. Key t = kb) (drop (nat i) (entry_tags s)) of
        None \<Rightarrow> Inr [] | Some t \<Rightarrow> Value t 0)"
proof (induction s kb kv i rule: Get_loop.induct)
  case (1 s kb kv i)
  show ?case
  proof (cases "i < TagsLength (entry_tags s)")
    case False
    then have "drop (nat i) (entry_tags s) = []"
      using 1 by (simp add: TagsLength_def)
    with False show ?thesis
      by (subst Get_loop.simps) simp
  next
    case True
    then have len: "nat i < length (entry_tags s)"
      using 1 by (simp add: TagsLength_def)
    have tg: "snd (Tags_at (entry_tags s) kv i) = entry_tags s ! nat i"
      using True 1 by (simp add: Tags_at_def)
    have dr: "drop (nat i) (entry_tags s) =
                entry_tags s ! nat i # drop (nat (i + 1)) (entry_tags s)"
      using len 1 by (simp add: Cons_nth_drop_Suc nat_add_distrib)
    show ?thesis
    proof (cases "Key (entry_tags s ! nat i) = kb")
      case k: True
      then show ?thesis
        using True tg by (subst Get_loop.simps) (simp add: dr)
    next
      case k: False
      have "Get_loop s kb (entry_tags s ! nat i) (i + 1) =
              (case find (\<lambda>t. Key t = kb) (drop (nat (i + 1)) (entry_tags s)) of
                 None \<Rightarrow> Inr [] | Some t \<Rightarrow> Value t 0)"
        using 1 True tg k by simp
      then show ?thesis
        using True tg k by (subst Get_loop.simps) (simp add: dr)
    qed
  qed
qed

lemma Get_eq:
  "Get s k = (case find (\<lambda>t. Key t = ToLower k) (entry_tags s) of
                None \<Rightarrow> Inr [] | Some t \<Rightarrow> Value t 0)"
  by (simp add: Get_def Get_loop_eq)

section \<open>The binary search\<close>

lemma Compare_Cons_less:
  "Compare (x # xs) (y # ys) = - 1 \<longleftrightarrow>
     (of_char x :: nat) < of_char y \<or> (x = y \<and> Compare xs ys = - 1)"
proof (cases "(of_char x :: nat) < of_char y")
  case True
  then show ?thesis by simp
next
  case False
  show ?thesis
  proof (cases "(of_char y :: nat) < of_char x")
    case True
    then have "x \<noteq> y" by auto
    with True False show ?thesis by simp
  next
    case F2: False
    with False have "(of_char x :: nat) = of_char y" by simp
    then have "x = y" by (simp only: of_char_nat_eq)
    with False show ?thesis by simp
  qed
qed

lemma Compare_trans: "Compare a b = - 1 \<Longrightarrow> Compare b c = - 1 \<Longrightarrow> Compare a c = - 1"
proof (induction a arbitrary: b c)
  case Nil
  then show ?case by (cases b; cases c) simp_all
next
  case (Cons x xs)
  from Cons.prems(1) obtain y ys where b: "b = y # ys"
    by (cases b) simp_all
  from Cons.prems(2) b obtain z zs where c: "c = z # zs"
    by (cases c) simp_all
  from Cons.prems(1) b have xy: "(of_char x :: nat) < of_char y \<or> (x = y \<and> Compare xs ys = - 1)"
    by (simp only: Compare_Cons_less)
  from Cons.prems(2) b c have yz: "(of_char y :: nat) < of_char z \<or> (y = z \<and> Compare ys zs = - 1)"
    by (simp only: Compare_Cons_less)
  have "(of_char x :: nat) < of_char z \<or> (x = z \<and> Compare xs zs = - 1)"
  proof (cases "x = y \<and> y = z")
    case True
    with xy yz have "Compare xs ys = - 1" "Compare ys zs = - 1" by simp_all
    then have "Compare xs zs = - 1" by (rule Cons.IH)
    with True show ?thesis by simp
  next
    case False
    with xy yz have "(of_char x :: nat) < of_char z"
      by (elim disjE conjE) simp_all
    then show ?thesis by simp
  qed
  then show ?case
    by (simp only: c Compare_Cons_less)
qed

lemma midpoint:
  fixes i j :: int
  assumes "0 \<le> i" "i < j" "j < 2 ^ 63"
  shows "((i + j) mod 2 ^ 64) div 2 = (i + j) div 2"
    and "i \<le> (i + j) div 2" and "(i + j) div 2 < j"
proof -
  have "0 \<le> i + j" "i + j < (2::int) ^ 64"
    using assms by simp_all
  then show "((i + j) mod 2 ^ 64) div 2 = (i + j) div 2"
    by simp
  show "i \<le> (i + j) div 2" "(i + j) div 2 < j"
    using assms by simp_all
qed

lemma loop_step:
  assumes "i < j" and "compare (((i + j) mod 2 ^ 64) div 2) st = (c, st1)"
  shows "binarySearch_loop compare i j st =
        (if c = 0 then Some (((i + j) mod 2 ^ 64) div 2, st1)
         else if c = - 1 then binarySearch_loop compare i (((i + j) mod 2 ^ 64) div 2) st1
         else if c = 1 then binarySearch_loop compare (((i + j) mod 2 ^ 64) div 2 + 1) j st1
         else binarySearch_loop compare i j st1)"
  using assms by (subst binarySearch_loop.simps) (simp add: Let_def)

lemma loop_done: "\<not> i < j \<Longrightarrow> binarySearch_loop compare i j st = Some (- 1, st)"
  by (subst binarySearch_loop.simps) simp

lemma loop_result:
  fixes cmp :: "int \<Rightarrow> int"
  assumes "0 \<le> i" "j < 2 ^ 63"
    and "\<And>h st. i \<le> h \<Longrightarrow> h < j \<Longrightarrow> fst (compare h st) = cmp h"
    and "\<And>h. i \<le> h \<Longrightarrow> h < j \<Longrightarrow> cmp h = - 1 \<or> cmp h = 0 \<or> cmp h = 1"
    and "\<And>x y. i \<le> x \<Longrightarrow> x < y \<Longrightarrow> y < j \<Longrightarrow> cmp x \<noteq> 1 \<Longrightarrow> cmp y = - 1"
  shows "\<exists>r st'. binarySearch_loop compare i j st = Some (r, st') \<and>
           ((r = - 1 \<and> (\<forall>x. i \<le> x \<and> x < j \<longrightarrow> cmp x \<noteq> 0)) \<or>
            (i \<le> r \<and> r < j \<and> cmp r = 0 \<and> (\<exists>st0. compare r st0 = (0, st'))))"
  using assms
proof (induction "nat (j - i)" arbitrary: i j st rule: less_induct)
  case less
  show ?case
  proof (cases "i < j")
    case False
    then have "binarySearch_loop compare i j st = Some (- 1, st)"
      by (rule loop_done)
    moreover have "\<forall>x. i \<le> x \<and> x < j \<longrightarrow> cmp x \<noteq> 0"
      using False by auto
    ultimately show ?thesis
      by simp
  next
    case True
    define h where "h = (i + j) div 2"
    have mid: "((i + j) mod 2 ^ 64) div 2 = h" and ih: "i \<le> h" and hj: "h < j"
      using midpoint [OF less.prems(1) True less.prems(2)] by (simp_all add: h_def)
    obtain c st1 where cst: "compare h st = (c, st1)"
      by (cases "compare h st")
    have c: "c = cmp h"
      using less.prems(3) [OF ih hj, of st] cst by simp
    have "compare (((i + j) mod 2 ^ 64) div 2) st = (c, st1)"
      by (simp only: mid cst)
    with True have "binarySearch_loop compare i j st =
        (if c = 0 then Some (((i + j) mod 2 ^ 64) div 2, st1)
         else if c = - 1 then binarySearch_loop compare i (((i + j) mod 2 ^ 64) div 2) st1
         else if c = 1 then binarySearch_loop compare (((i + j) mod 2 ^ 64) div 2 + 1) j st1
         else binarySearch_loop compare i j st1)"
      by (rule loop_step)
    then have unfold: "binarySearch_loop compare i j st =
        (if c = 0 then Some (h, st1)
         else if c = - 1 then binarySearch_loop compare i h st1
         else if c = 1 then binarySearch_loop compare (h + 1) j st1
         else binarySearch_loop compare i j st1)"
      by (simp only: mid)
    consider "c = 0" | "c = - 1" | "c = 1"
      using less.prems(4) [OF ih hj] c by auto
    then show ?thesis
    proof cases
      case 1
      then have "binarySearch_loop compare i j st = Some (h, st1)"
        using unfold by simp
      moreover have "\<exists>st0. compare h st0 = (0, st1)"
        using cst 1 by (intro exI [of _ st]) simp
      moreover have "cmp h = 0"
        using c 1 by simp
      ultimately show ?thesis
        using ih hj by simp
    next
      case 2
      then have eq: "binarySearch_loop compare i j st = binarySearch_loop compare i h st1"
        using unfold by simp
      have rest: "cmp y \<noteq> 0" if "h \<le> y" "y < j" for y
      proof (cases "y = h")
        case True
        then show ?thesis using c 2 by simp
      next
        case False
        then have "h < y" using that by simp
        then have "cmp y = - 1"
          using less.prems(5) [OF ih _ that(2)] c 2 by simp
        then show ?thesis by simp
      qed
      have "\<exists>r st'. binarySearch_loop compare i h st1 = Some (r, st') \<and>
           ((r = - 1 \<and> (\<forall>x. i \<le> x \<and> x < h \<longrightarrow> cmp x \<noteq> 0)) \<or>
            (i \<le> r \<and> r < h \<and> cmp r = 0 \<and> (\<exists>st0. compare r st0 = (0, st'))))"
      proof (rule less.hyps)
        show "nat (h - i) < nat (j - i)" using ih hj by simp
        show "0 \<le> i" by (rule less.prems)
        show "h < 2 ^ 63" using hj less.prems(2) by simp
        show "fst (compare x st) = cmp x" if "i \<le> x" "x < h" for x st
          using less.prems(3) [of x st] that hj by simp
        show "cmp x = - 1 \<or> cmp x = 0 \<or> cmp x = 1" if "i \<le> x" "x < h" for x
          using less.prems(4) [of x] that hj by simp
        show "cmp y = - 1" if "i \<le> x" "x < y" "y < h" "cmp x \<noteq> 1" for x y
          using less.prems(5) [of x y] that hj by simp
      qed
      then obtain r st' where r: "binarySearch_loop compare i h st1 = Some (r, st')"
        and rr: "(r = - 1 \<and> (\<forall>x. i \<le> x \<and> x < h \<longrightarrow> cmp x \<noteq> 0)) \<or>
            (i \<le> r \<and> r < h \<and> cmp r = 0 \<and> (\<exists>st0. compare r st0 = (0, st')))"
        by blast
      from rr have "(r = - 1 \<and> (\<forall>x. i \<le> x \<and> x < j \<longrightarrow> cmp x \<noteq> 0)) \<or>
            (i \<le> r \<and> r < j \<and> cmp r = 0 \<and> (\<exists>st0. compare r st0 = (0, st')))"
      proof
        assume a: "r = - 1 \<and> (\<forall>x. i \<le> x \<and> x < h \<longrightarrow> cmp x \<noteq> 0)"
        have "cmp x \<noteq> 0" if "i \<le> x" "x < j" for x
        proof (cases "x < h")
          case True
          with a that show ?thesis by simp
        next
          case False
          then show ?thesis using rest [of x] that by simp
        qed
        with a show ?thesis by simp
      next
        assume "i \<le> r \<and> r < h \<and> cmp r = 0 \<and> (\<exists>st0. compare r st0 = (0, st'))"
        moreover from this hj have "r < j" by simp
        ultimately show ?thesis by simp
      qed
      moreover have "binarySearch_loop compare i j st = Some (r, st')"
        using r eq by simp
      ultimately show ?thesis
        by (intro exI [of _ r] exI [of _ st'] conjI)
    next
      case 3
      then have eq: "binarySearch_loop compare i j st = binarySearch_loop compare (h + 1) j st1"
        using unfold by simp
      have before: "cmp x \<noteq> 0" if "i \<le> x" "x \<le> h" for x
      proof (cases "x = h")
        case True
        then show ?thesis using c 3 by simp
      next
        case False
        then have xh: "x < h" using that by simp
        have "cmp x = 1"
        proof (rule ccontr)
          assume "cmp x \<noteq> 1"
          then have "cmp h = - 1"
            using less.prems(5) [OF that(1) xh hj] by simp
          then show False using c 3 by simp
        qed
        then show ?thesis by simp
      qed
      have "\<exists>r st'. binarySearch_loop compare (h + 1) j st1 = Some (r, st') \<and>
           ((r = - 1 \<and> (\<forall>x. h + 1 \<le> x \<and> x < j \<longrightarrow> cmp x \<noteq> 0)) \<or>
            (h + 1 \<le> r \<and> r < j \<and> cmp r = 0 \<and> (\<exists>st0. compare r st0 = (0, st'))))"
      proof (rule less.hyps)
        show "nat (j - (h + 1)) < nat (j - i)" using ih hj by simp
        show "0 \<le> h + 1" using less.prems(1) ih by simp
        show "j < 2 ^ 63" by (rule less.prems)
        show "fst (compare x st) = cmp x" if "h + 1 \<le> x" "x < j" for x st
          using less.prems(3) [of x st] that ih by simp
        show "cmp x = - 1 \<or> cmp x = 0 \<or> cmp x = 1" if "h + 1 \<le> x" "x < j" for x
          using less.prems(4) [of x] that ih by simp
        show "cmp y = - 1" if "h + 1 \<le> x" "x < y" "y < j" "cmp x \<noteq> 1" for x y
          using less.prems(5) [of x y] that ih by simp
      qed
      then obtain r st' where r: "binarySearch_loop compare (h + 1) j st1 = Some (r, st')"
        and rr: "(r = - 1 \<and> (\<forall>x. h + 1 \<le> x \<and> x < j \<longrightarrow> cmp x \<noteq> 0)) \<or>
            (h + 1 \<le> r \<and> r < j \<and> cmp r = 0 \<and> (\<exists>st0. compare r st0 = (0, st')))"
        by blast
      from rr have "(r = - 1 \<and> (\<forall>x. i \<le> x \<and> x < j \<longrightarrow> cmp x \<noteq> 0)) \<or>
            (i \<le> r \<and> r < j \<and> cmp r = 0 \<and> (\<exists>st0. compare r st0 = (0, st')))"
      proof
        assume a: "r = - 1 \<and> (\<forall>x. h + 1 \<le> x \<and> x < j \<longrightarrow> cmp x \<noteq> 0)"
        have "cmp x \<noteq> 0" if "i \<le> x" "x < j" for x
        proof (cases "x \<le> h")
          case True
          then show ?thesis using before [of x] that by simp
        next
          case False
          then have "h + 1 \<le> x" by simp
          with a that show ?thesis by simp
        qed
        with a show ?thesis by simp
      next
        assume "h + 1 \<le> r \<and> r < j \<and> cmp r = 0 \<and> (\<exists>st0. compare r st0 = (0, st'))"
        moreover from this ih have "i \<le> r" by simp
        ultimately show ?thesis by simp
      qed
      moreover have "binarySearch_loop compare i j st = Some (r, st')"
        using r eq by simp
      ultimately show ?thesis
        by (intro exI [of _ r] exI [of _ st'] conjI)
    qed
  qed
qed


lemma loop_returns:
  assumes "0 \<le> i" "j < 2 ^ 63"
    and "\<And>h st. i \<le> h \<Longrightarrow> h < j \<Longrightarrow>
           fst (compare h st) = - 1 \<or> fst (compare h st) = 0 \<or> fst (compare h st) = 1"
  shows "\<exists>r st'. binarySearch_loop compare i j st = Some (r, st') \<and>
           (r = - 1 \<or> (i \<le> r \<and> r < j \<and> (\<exists>st0. compare r st0 = (0, st'))))"
  using assms
proof (induction "nat (j - i)" arbitrary: i j st rule: less_induct)
  case less
  show ?case
  proof (cases "i < j")
    case False
    then have "binarySearch_loop compare i j st = Some (- 1, st)"
      by (rule loop_done)
    then show ?thesis
      by simp
  next
    case True
    define h where "h = (i + j) div 2"
    have mid: "((i + j) mod 2 ^ 64) div 2 = h" and ih: "i \<le> h" and hj: "h < j"
      using midpoint [OF less.prems(1) True less.prems(2)] by (simp_all add: h_def)
    obtain c st1 where cst: "compare h st = (c, st1)"
      by (cases "compare h st")
    have "compare (((i + j) mod 2 ^ 64) div 2) st = (c, st1)"
      by (simp only: mid cst)
    with True have "binarySearch_loop compare i j st =
        (if c = 0 then Some (((i + j) mod 2 ^ 64) div 2, st1)
         else if c = - 1 then binarySearch_loop compare i (((i + j) mod 2 ^ 64) div 2) st1
         else if c = 1 then binarySearch_loop compare (((i + j) mod 2 ^ 64) div 2 + 1) j st1
         else binarySearch_loop compare i j st1)"
      by (rule loop_step)
    then have unfold: "binarySearch_loop compare i j st =
        (if c = 0 then Some (h, st1)
         else if c = - 1 then binarySearch_loop compare i h st1
         else if c = 1 then binarySearch_loop compare (h + 1) j st1
         else binarySearch_loop compare i j st1)"
      by (simp only: mid)
    consider "c = 0" | "c = - 1" | "c = 1"
      using less.prems(3) [OF ih hj, of st] cst by auto
    then show ?thesis
    proof cases
      case 1
      then have "binarySearch_loop compare i j st = Some (h, st1)"
        using unfold by simp
      moreover have "\<exists>st0. compare h st0 = (0, st1)"
        using cst 1 by (intro exI [of _ st]) simp
      ultimately show ?thesis
        using ih hj by simp
    next
      case 2
      then have eq: "binarySearch_loop compare i j st = binarySearch_loop compare i h st1"
        using unfold by simp
      have "\<exists>r st'. binarySearch_loop compare i h st1 = Some (r, st') \<and>
           (r = - 1 \<or> (i \<le> r \<and> r < h \<and> (\<exists>st0. compare r st0 = (0, st'))))"
      proof (rule less.hyps)
        show "nat (h - i) < nat (j - i)" using ih hj by simp
        show "0 \<le> i" by (rule less.prems)
        show "h < 2 ^ 63" using hj less.prems(2) by simp
        show "fst (compare x st) = - 1 \<or> fst (compare x st) = 0 \<or> fst (compare x st) = 1"
          if "i \<le> x" "x < h" for x st
          using less.prems(3) [of x st] that hj by simp
      qed
      then obtain r st' where r: "binarySearch_loop compare i h st1 = Some (r, st')"
        and rr: "r = - 1 \<or> (i \<le> r \<and> r < h \<and> (\<exists>st0. compare r st0 = (0, st')))"
        by blast
      from rr hj have "r = - 1 \<or> (i \<le> r \<and> r < j \<and> (\<exists>st0. compare r st0 = (0, st')))"
        by auto
      moreover have "binarySearch_loop compare i j st = Some (r, st')"
        using r eq by simp
      ultimately show ?thesis
        by (intro exI [of _ r] exI [of _ st'] conjI)
    next
      case 3
      then have eq: "binarySearch_loop compare i j st = binarySearch_loop compare (h + 1) j st1"
        using unfold by simp
      have "\<exists>r st'. binarySearch_loop compare (h + 1) j st1 = Some (r, st') \<and>
           (r = - 1 \<or> (h + 1 \<le> r \<and> r < j \<and> (\<exists>st0. compare r st0 = (0, st'))))"
      proof (rule less.hyps)
        show "nat (j - (h + 1)) < nat (j - i)" using ih hj by simp
        show "0 \<le> h + 1" using less.prems(1) ih by simp
        show "j < 2 ^ 63" by (rule less.prems)
        show "fst (compare x st) = - 1 \<or> fst (compare x st) = 0 \<or> fst (compare x st) = 1"
          if "h + 1 \<le> x" "x < j" for x st
          using less.prems(3) [of x st] that ih by simp
      qed
      then obtain r st' where r: "binarySearch_loop compare (h + 1) j st1 = Some (r, st')"
        and rr: "r = - 1 \<or> (h + 1 \<le> r \<and> r < j \<and> (\<exists>st0. compare r st0 = (0, st')))"
        by blast
      from rr ih have "r = - 1 \<or> (i \<le> r \<and> r < j \<and> (\<exists>st0. compare r st0 = (0, st')))"
        by auto
      moreover have "binarySearch_loop compare i j st = Some (r, st')"
        using r eq by simp
      ultimately show ?thesis
        by (intro exI [of _ r] exI [of _ st'] conjI)
    qed
  qed
qed

lemma Compare_greater_trans:
  "Compare a b = 1 \<Longrightarrow> Compare b c = 1 \<Longrightarrow> Compare a c = 1"
proof -
  assume "Compare a b = 1" "Compare b c = 1"
  then have "Compare c b = - 1" "Compare b a = - 1"
    using Compare_swap [of b c] Compare_swap [of a b] by simp_all
  then have "Compare c a = - 1"
    by (rule Compare_trans)
  then show ?thesis
    using Compare_swap [of a c] by simp
qed

lemma FindTag_compare_in_range:
  "0 \<le> i \<Longrightarrow> i < TagsLength s \<Longrightarrow>
   FindTag_compare s k i kv = (Compare (Key (s ! nat i)) k, s ! nat i)"
  by (simp add: FindTag_compare_def Tags_at_def Let_def)

lemma descending_keys_nth:
  "descending_keys s \<Longrightarrow> x < y \<Longrightarrow> y < length s \<Longrightarrow> Compare (Key (s ! x)) (Key (s ! y)) = 1"
  by (simp add: descending_keys_def sorted_wrt_iff_nth_less)

lemma FindTag_returns:
  assumes "TagsLength s < 2 ^ 63"
  shows "\<exists>r. FindTag s kv k = Some r \<and> (\<forall>t. r = Some t \<longrightarrow> t \<in> set s \<and> Key t = k)"
proof -
  have tri: "fst (FindTag_compare s k h st) = - 1 \<or> fst (FindTag_compare s k h st) = 0
        \<or> fst (FindTag_compare s k h st) = 1" for h st
    using Compare_range by (simp add: FindTag_compare_def Let_def)
  have "\<exists>r st'. binarySearch_loop (FindTag_compare s k) 0 (TagsLength s) kv = Some (r, st') \<and>
           (r = - 1 \<or> (0 \<le> r \<and> r < TagsLength s \<and> (\<exists>st0. FindTag_compare s k r st0 = (0, st'))))"
    by (rule loop_returns) (use assms tri in simp_all)
  then obtain r st' where
    r: "binarySearch_loop (FindTag_compare s k) 0 (TagsLength s) kv = Some (r, st')"
    and rr: "r = - 1 \<or> (0 \<le> r \<and> r < TagsLength s \<and> (\<exists>st0. FindTag_compare s k r st0 = (0, st')))"
    by blast
  from rr show ?thesis
  proof
    assume "r = - 1"
    with r have "FindTag s kv k = Some None"
      by (simp add: FindTag_def binarySearch_def)
    then show ?thesis by simp
  next
    assume a: "0 \<le> r \<and> r < TagsLength s \<and> (\<exists>st0. FindTag_compare s k r st0 = (0, st'))"
    then obtain st0 where st0: "FindTag_compare s k r st0 = (0, st')" by blast
    have "FindTag_compare s k r st0 = (Compare (Key (s ! nat r)) k, s ! nat r)"
      using a by (intro FindTag_compare_in_range) simp_all
    with st0 have "(0, st') = (Compare (Key (s ! nat r)) k, s ! nat r)"
      by (simp only:)
    then have c0: "Compare (Key (s ! nat r)) k = 0" and st': "st' = s ! nat r"
      by (simp_all only: prod.inject)
    have kk: "Key (s ! nat r) = k"
      using c0 by (simp only: Compare_eq_0)
    have "nat r < length s"
      using a unfolding TagsLength_def by linarith
    then have mem: "s ! nat r \<in> set s"
      by simp
    have "FindTag s kv k = Some (Some (s ! nat r))"
      using r a by (simp add: FindTag_def binarySearch_def st')
    then show ?thesis
      using kk mem by simp
  qed
qed

lemma find_unique_key:
  assumes "descending_keys s" "r < length s" "Key (s ! r) = k"
  shows "find (\<lambda>t. Key t = k) s = Some (s ! r)"
proof -
  have "Key (s ! x) \<noteq> k" if "x < r" for x
  proof
    assume "Key (s ! x) = k"
    moreover have "Compare (Key (s ! x)) (Key (s ! r)) = 1"
      using assms(1) that assms(2) by (rule descending_keys_nth)
    ultimately have "Compare k k = 1"
      using assms(3) by simp
    then show False
      using Compare_eq_0 [of k k] by simp
  qed
  with assms(2,3) show ?thesis
    unfolding find_Some_iff by blast
qed

lemma FindTag_find:
  assumes "encoded_tags s"
  shows "FindTag s kv k = Some (find (\<lambda>t. Key t = k) s)"
proof -
  define cmp where "cmp h = Compare (Key (s ! nat h)) k" for h
  have desc: "descending_keys s" and len: "TagsLength s < 2 ^ 63"
    using assms by (simp_all add: encoded_tags_def)
  have fst_eq: "fst (FindTag_compare s k h st) = cmp h" if "0 \<le> h" "h < TagsLength s" for h st
    using that by (simp add: FindTag_compare_in_range cmp_def)
  have tri: "cmp h = - 1 \<or> cmp h = 0 \<or> cmp h = 1" for h
    unfolding cmp_def by (rule Compare_range)
  have mono: "cmp y = - 1" if "0 \<le> x" "x < y" "y < TagsLength s" "cmp x \<noteq> 1" for x y
  proof -
    have "Compare (Key (s ! nat x)) (Key (s ! nat y)) = 1"
      by (rule descending_keys_nth [OF desc]) (use that in \<open>simp_all add: TagsLength_def\<close>)
    then have yx: "Compare (Key (s ! nat y)) (Key (s ! nat x)) = - 1"
      using Compare_swap [of "Key (s ! nat x)" "Key (s ! nat y)"] by simp
    from that(4) tri [of x] consider "cmp x = 0" | "cmp x = - 1" by auto
    then show ?thesis
    proof cases
      case 1
      then have "Key (s ! nat x) = k" by (simp add: cmp_def Compare_eq_0)
      with yx show ?thesis by (simp add: cmp_def)
    next
      case 2
      then have "Compare (Key (s ! nat x)) k = - 1" by (simp add: cmp_def)
      with yx show ?thesis unfolding cmp_def by (rule Compare_trans)
    qed
  qed
  have "\<exists>r st'. binarySearch_loop (FindTag_compare s k) 0 (TagsLength s) kv = Some (r, st') \<and>
           ((r = - 1 \<and> (\<forall>x. 0 \<le> x \<and> x < TagsLength s \<longrightarrow> cmp x \<noteq> 0)) \<or>
            (0 \<le> r \<and> r < TagsLength s \<and> cmp r = 0 \<and>
             (\<exists>st0. FindTag_compare s k r st0 = (0, st'))))"
  proof (rule loop_result)
    show "(0::int) \<le> 0" by simp
    show "TagsLength s < 2 ^ 63" by (rule len)
    show "fst (FindTag_compare s k h st) = cmp h" if "0 \<le> h" "h < TagsLength s" for h st
      using that by (rule fst_eq)
    show "cmp h = - 1 \<or> cmp h = 0 \<or> cmp h = 1" for h
      by (rule tri)
    show "cmp y = - 1" if "0 \<le> x" "x < y" "y < TagsLength s" "cmp x \<noteq> 1" for x y
      using that by (rule mono)
  qed
  then obtain r st' where
    r: "binarySearch_loop (FindTag_compare s k) 0 (TagsLength s) kv = Some (r, st')"
    and rr: "(r = - 1 \<and> (\<forall>x. 0 \<le> x \<and> x < TagsLength s \<longrightarrow> cmp x \<noteq> 0)) \<or>
            (0 \<le> r \<and> r < TagsLength s \<and> cmp r = 0 \<and>
             (\<exists>st0. FindTag_compare s k r st0 = (0, st')))"
    by blast
  from rr show ?thesis
  proof
    assume a: "r = - 1 \<and> (\<forall>x. 0 \<le> x \<and> x < TagsLength s \<longrightarrow> cmp x \<noteq> 0)"
    have "Key t \<noteq> k" if "t \<in> set s" for t
    proof -
      from that obtain n where n: "n < length s" "t = s ! n"
        by (auto simp: in_set_conv_nth)
      then have "cmp (int n) \<noteq> 0"
        using a by (simp add: TagsLength_def)
      with n show ?thesis
        by (simp add: cmp_def Compare_eq_0)
    qed
    then have "find (\<lambda>t. Key t = k) s = None"
      by (simp add: find_None_iff)
    moreover have "FindTag s kv k = Some None"
      using r a by (simp add: FindTag_def binarySearch_def)
    ultimately show ?thesis by simp
  next
    assume a: "0 \<le> r \<and> r < TagsLength s \<and> cmp r = 0 \<and>
             (\<exists>st0. FindTag_compare s k r st0 = (0, st'))"
    then obtain st0 where st0: "FindTag_compare s k r st0 = (0, st')" by blast
    have "FindTag_compare s k r st0 = (Compare (Key (s ! nat r)) k, s ! nat r)"
      using a by (intro FindTag_compare_in_range) simp_all
    with st0 have "(0, st') = (Compare (Key (s ! nat r)) k, s ! nat r)"
      by (simp only:)
    then have st': "st' = s ! nat r"
      by (simp only: prod.inject)
    have "Key (s ! nat r) = k"
      using a by (simp add: cmp_def Compare_eq_0)
    moreover have "nat r < length s"
      using a unfolding TagsLength_def by linarith
    ultimately have "find (\<lambda>t. Key t = k) s = Some (s ! nat r)"
      using desc by (intro find_unique_key)
    moreover have "FindTag s kv k = Some (Some st')"
      using r a by (simp add: FindTag_def binarySearch_def)
    ultimately show ?thesis
      using st' by simp
  qed
qed

lemma upto_nth: "i < nat n \<Longrightarrow> [0..n - 1] ! i = int i"
  by (simp add: nth_upto)

lemma consistent_tri:
  "consistent n cmp \<Longrightarrow> 0 \<le> h \<Longrightarrow> h < n \<Longrightarrow> cmp h = - 1 \<or> cmp h = 0 \<or> cmp h = 1"
  by (simp add: consistent_def list_all_iff)

lemma consistent_mono:
  assumes "consistent n cmp" "0 \<le> x" "x < y" "y < n" "cmp x \<noteq> 1"
  shows "cmp y = - 1"
proof -
  have "\<forall>i \<in> set [0..n - 1]. cmp i = 1 \<or> (\<forall>j \<in> set [i + 1..n - 1]. cmp j = - 1)"
    using assms(1) by (simp add: consistent_def list_all_iff)
  moreover have "x \<in> set [0..n - 1]"
    using assms by simp
  ultimately have "\<forall>j \<in> set [x + 1..n - 1]. cmp j = - 1"
    using assms(5) by blast
  moreover have "y \<in> set [x + 1..n - 1]"
    using assms by simp
  ultimately show ?thesis
    by blast
qed

lemma first_match_none:
  "(\<forall>x. 0 \<le> x \<and> x < n \<longrightarrow> cmp x \<noteq> 0) \<Longrightarrow> first_match n cmp = - 1"
proof -
  assume a: "\<forall>x. 0 \<le> x \<and> x < n \<longrightarrow> cmp x \<noteq> 0"
  have "find (\<lambda>i. cmp i = 0) [0..n - 1] = None"
    unfolding find_None_iff using a by simp
  then show ?thesis
    by (simp add: first_match_def)
qed

lemma first_match_some:
  assumes "0 \<le> r" "r < n" "cmp r = 0" "\<And>x. 0 \<le> x \<Longrightarrow> x < r \<Longrightarrow> cmp x \<noteq> 0"
  shows "first_match n cmp = r"
proof -
  have len: "length [0..n - 1] = nat n"
    by simp
  have "find (\<lambda>i. cmp i = 0) [0..n - 1] = Some r"
    unfolding find_Some_iff
  proof (intro exI [of _ "nat r"] conjI allI impI)
    show "nat r < length [0..n - 1]"
      using assms by simp
    show "cmp ([0..n - 1] ! nat r) = 0"
      using assms by (simp add: nth_upto)
    show "r = [0..n - 1] ! nat r"
      using assms by (simp add: nth_upto)
    show "cmp ([0..n - 1] ! j) \<noteq> 0" if "j < nat r" for j
    proof -
      have "[0..n - 1] ! j = int j"
        using that assms by (simp add: nth_upto)
      moreover have "cmp (int j) \<noteq> 0"
        using that assms(4) [of "int j"] by simp
      ultimately show ?thesis by simp
    qed
  qed
  then show ?thesis
    by (simp add: first_match_def)
qed

lemma binarySearch_pure:
  assumes "n < 2 ^ 63" and "consistent n cmp"
  shows "binarySearch n (pure_compare cmp) () = Some (first_match n cmp, ())"
proof -
  have "\<exists>r st'. binarySearch_loop (pure_compare cmp) 0 n () = Some (r, st') \<and>
           ((r = - 1 \<and> (\<forall>x. 0 \<le> x \<and> x < n \<longrightarrow> cmp x \<noteq> 0)) \<or>
            (0 \<le> r \<and> r < n \<and> cmp r = 0 \<and> (\<exists>st0. pure_compare cmp r st0 = (0, st'))))"
  proof (rule loop_result)
    show "(0::int) \<le> 0" by simp
    show "n < 2 ^ 63" by (rule assms)
    show "fst (pure_compare cmp h st) = cmp h" for h st
      by (simp add: pure_compare_def)
    show "cmp h = - 1 \<or> cmp h = 0 \<or> cmp h = 1" if "0 \<le> h" "h < n" for h
      using assms(2) that by (rule consistent_tri)
    show "cmp y = - 1" if "0 \<le> x" "x < y" "y < n" "cmp x \<noteq> 1" for x y
      using assms(2) that by (rule consistent_mono)
  qed
  then obtain r st' where r: "binarySearch_loop (pure_compare cmp) 0 n () = Some (r, st')"
    and rr: "(r = - 1 \<and> (\<forall>x. 0 \<le> x \<and> x < n \<longrightarrow> cmp x \<noteq> 0)) \<or>
            (0 \<le> r \<and> r < n \<and> cmp r = 0 \<and> (\<exists>st0. pure_compare cmp r st0 = (0, st')))"
    by blast
  from rr have "first_match n cmp = r"
  proof
    assume "r = - 1 \<and> (\<forall>x. 0 \<le> x \<and> x < n \<longrightarrow> cmp x \<noteq> 0)"
    then show ?thesis
      using first_match_none [of n cmp] by simp
  next
    assume a: "0 \<le> r \<and> r < n \<and> cmp r = 0 \<and> (\<exists>st0. pure_compare cmp r st0 = (0, st'))"
    have "cmp x \<noteq> 0" if "0 \<le> x" "x < r" for x
    proof
      assume "cmp x = 0"
      then have "cmp x \<noteq> 1" by simp
      with assms(2) that a have "cmp r = - 1"
        by (intro consistent_mono [of n cmp x r]) simp_all
      with a show False by simp
    qed
    with a show ?thesis
      by (intro first_match_some) simp_all
  qed
  with r show ?thesis
    by (simp add: binarySearch_def)
qed

section \<open>The claims about the readers\<close>

text \<open>
  Claim C3. For a length \<open>n\<close> that fits Go's \<^verbatim>\<open>int\<close> and a tri-state comparator that
  is consistent with a total order over the positions (as the comparison of a target
  with distinct keys in descending order is), \<^verbatim>\<open>binarySearch\<close> returns: the first
  index at which the comparator reports 0, and -1 when no index does. The witness runs
  the theorem over the keys c, b, a: the search for b gives 1, the search for z gives -1.
\<close>

theorem binarySearch_first_match:
  assumes "n < 2 ^ 63" and "consistent n cmp"
  shows "binarySearch n (pure_compare cmp) () = Some (first_match n cmp, ())"
  using assms by (rule binarySearch_pure)

theorem binarySearch_first_match_witness:
  "consistent 3 (\<lambda>i. Compare ([''c'', ''b'', ''a''] ! nat i) ''b'')
   \<and> binarySearch 3 (pure_compare (\<lambda>i. Compare ([''c'', ''b'', ''a''] ! nat i) ''b'')) ()
       = Some (1, ())
   \<and> consistent 3 (\<lambda>i. Compare ([''c'', ''b'', ''a''] ! nat i) ''z'')
   \<and> binarySearch 3 (pure_compare (\<lambda>i. Compare ([''c'', ''b'', ''a''] ! nat i) ''z'')) ()
       = Some (- 1, ())"
proof -
  have b: "consistent 3 (\<lambda>i. Compare ([''c'', ''b'', ''a''] ! nat i) ''b'')"
    by code_simp
  have z: "consistent 3 (\<lambda>i. Compare ([''c'', ''b'', ''a''] ! nat i) ''z'')"
    by code_simp
  have fb: "first_match 3 (\<lambda>i. Compare ([''c'', ''b'', ''a''] ! nat i) ''b'') = 1"
    by code_simp
  have fz: "first_match 3 (\<lambda>i. Compare ([''c'', ''b'', ''a''] ! nat i) ''z'') = - 1"
    by code_simp
  have n: "(3::int) < 2 ^ 63"
    by simp
  show ?thesis
    using binarySearch_first_match [OF n b] binarySearch_first_match [OF n z] b z
    by (simp only: fb fz simp_thms)
qed

text \<open>
  Claim C2, as the code has it. The comparator that \<^verbatim>\<open>FindTag\<close> passes to the binary
  search is \<^verbatim>\<open>bytes.Compare(kv.Key(), k)\<close>: the stored key is the first operand and
  the target key the second. With the loop of \<^verbatim>\<open>binarySearch\<close> (-1 goes on to the
  left, 1 to the right) this is the sign convention of a descending key order: on
  every tag vector with distinct keys in descending order \<^verbatim>\<open>FindTag\<close> returns the
  record that has the key, and \<^verbatim>\<open>nil\<close> when there is none.
\<close>

theorem FindTag_compare_stored_key_first:
  assumes "encoded_tags s" and "0 \<le> i" and "i < TagsLength s"
  shows "FindTag_compare s k i kv = (Compare (Key (s ! nat i)) k, s ! nat i)
         \<and> FindTag s kv k = Some (find (\<lambda>t. Key t = k) s)"
  using assms by (simp add: FindTag_compare_in_range FindTag_find)

theorem FindTag_compare_stored_key_first_witness:
  "encoded_tags [\<lparr>Key = ''c'', Values = [''3'']\<rparr>, \<lparr>Key = ''b'', Values = [''2'']\<rparr>,
                 \<lparr>Key = ''a'', Values = [''1'']\<rparr>]
   \<and> FindTag_compare [\<lparr>Key = ''c'', Values = [''3'']\<rparr>, \<lparr>Key = ''b'', Values = [''2'']\<rparr>,
                 \<lparr>Key = ''a'', Values = [''1'']\<rparr>] ''b'' 0 empty_KeyValues
       = (1, \<lparr>Key = ''c'', Values = [''3'']\<rparr>)
   \<and> FindTag [\<lparr>Key = ''c'', Values = [''3'']\<rparr>, \<lparr>Key = ''b'', Values = [''2'']\<rparr>,
                 \<lparr>Key = ''a'', Values = [''1'']\<rparr>] empty_KeyValues ''b''
       = Some (Some \<lparr>Key = ''b'', Values = [''2'']\<rparr>)"
proof -
  let ?s = "[\<lparr>Key = ''c'', Values = [''3'']\<rparr>, \<lparr>Key = ''b'', Values = [''2'']\<rparr>,
             \<lparr>Key = ''a'', Values = [''1'']\<rparr>]"
  have e: "encoded_tags ?s"
    by (simp add: encoded_tags_def descending_keys_def TagsLength_def)
  have i: "(0::int) \<le> 0" "0 < TagsLength ?s"
    by (simp_all add: TagsLength_def)
  show ?thesis
    using FindTag_compare_stored_key_first [OF e i, of "''b''" empty_KeyValues] e
    by simp
qed

text \<open>
  The claim as the spec words it, with the target key as the first operand, fails: for
  the stored key b and the target key a the comparator returns 1, and
  \<^verbatim>\<open>compare(target_key, stored_key)\<close> is -1.
\<close>

theorem FindTag_compare_target_first_counterexample:
  "fst (FindTag_compare [\<lparr>Key = ''b'', Values = [''v'']\<rparr>] ''a'' 0 empty_KeyValues)
     \<noteq> Compare ''a'' ''b''"
  by (simp add: FindTag_compare_def Tags_at_def TagsLength_def)

text \<open>
  Claim C4. On every validly encoded entry (distinct keys in descending order, at
  least one value in each record) \<^verbatim>\<open>Get\<close>, which scans the records from index 0, and
  the lookup by binary search of the lower-cased key, which takes \<^verbatim>\<open>Value(0)\<close> of
  the record that \<^verbatim>\<open>FindTag\<close> returns, give the same result for every key: the first
  value of the record whose key is the lower-cased key, and the empty string when no
  record has that key. The theorem does not need the stored keys to be lower-cased.
\<close>

theorem Get_equals_binary_search_lookup:
  assumes "encoded_tags (entry_tags s)" and "has_values (entry_tags s)"
  shows "Get_by_search s kv k = Some (Get s k)
         \<and> Get s k = Inr (case find (\<lambda>t. Key t = ToLower k) (entry_tags s) of
                            None \<Rightarrow> [] | Some t \<Rightarrow> hd (Values t))"
proof -
  have g: "Get s k = (case find (\<lambda>t. Key t = ToLower k) (entry_tags s) of
                None \<Rightarrow> Inr [] | Some t \<Rightarrow> Value t 0)"
    by (rule Get_eq)
  have f: "FindTag (entry_tags s) kv (ToLower k)
             = Some (find (\<lambda>t. Key t = ToLower k) (entry_tags s))"
    using assms(1) by (rule FindTag_find)
  have first: "Value t 0 = Inr (hd (Values t))" if "t \<in> set (entry_tags s)" for t
  proof -
    have "Values t \<noteq> []"
      using assms(2) that by (simp add: has_values_def list_all_iff)
    then show ?thesis
      by (simp add: Value_def ValueLength_def hd_conv_nth)
  qed
  show ?thesis
  proof (cases "find (\<lambda>t. Key t = ToLower k) (entry_tags s)")
    case None
    with g f show ?thesis
      by (simp add: Get_by_search_def)
  next
    case (Some t)
    then have "t \<in> set (entry_tags s)"
      by (auto simp: find_Some_iff)
    then have "Value t 0 = Inr (hd (Values t))"
      by (rule first)
    with Some g f show ?thesis
      by (simp add: Get_by_search_def)
  qed
qed

theorem Get_equals_binary_search_lookup_witness:
  "encoded_tags [\<lparr>Key = ''http.method'', Values = [''GET'']\<rparr>]
   \<and> has_values [\<lparr>Key = ''http.method'', Values = [''GET'']\<rparr>]
   \<and> Get_by_search \<lparr>entry_id = ''abc'', entry_start = 100, entry_end = 200,
         entry_tags = [\<lparr>Key = ''http.method'', Values = [''GET'']\<rparr>]\<rparr>
         empty_KeyValues ''HTTP.METHOD'' = Some (Inr ''GET'')
   \<and> Get \<lparr>entry_id = ''abc'', entry_start = 100, entry_end = 200,
         entry_tags = [\<lparr>Key = ''http.method'', Values = [''GET'']\<rparr>]\<rparr> ''HTTP.METHOD''
       = Inr ''GET''"
proof -
  let ?e = "\<lparr>entry_id = ''abc'', entry_start = 100, entry_end = 200,
         entry_tags = [\<lparr>Key = ''http.method'', Values = [''GET'']\<rparr>]\<rparr>"
  have e: "encoded_tags (entry_tags ?e)"
    by (simp add: encoded_tags_def descending_keys_def TagsLength_def)
  have h: "has_values (entry_tags ?e)"
    by (simp add: has_values_def)
  have g: "Get ?e ''HTTP.METHOD'' = Inr ''GET''"
    by code_simp
  show ?thesis
    using Get_equals_binary_search_lookup [OF e h, of empty_KeyValues "''HTTP.METHOD''"] e h
    by (simp only: g) simp
qed

text \<open>
  Claim C7. On every tag container (an encoded entry or page: distinct keys in
  descending order) and for every key \<open>k\<close> and fragment \<open>v\<close>, \<^verbatim>\<open>ContainsTag\<close>, and with
  it \<^verbatim>\<open>Contains\<close> of an entry, returns true exactly when the container has a record
  whose key equals \<open>k\<close> and one of whose values has \<open>v\<close> as a contiguous run of bytes. It
  always returns, and never with an error: an absent key gives false.
\<close>

theorem ContainsTag_substring_match:
  assumes "encoded_tags s"
  shows "ContainsTag s kv k v =
           Some (Inr (\<exists>t \<in> set s. Key t = k \<and> (\<exists>x \<in> set (Values t). \<exists>p q. x = p @ v @ q)))
         \<and> (entry_tags e = s \<longrightarrow> SearchEntry_Contains e k v kv = ContainsTag s kv k v)
         \<and> ((\<forall>t \<in> set s. Key t \<noteq> k) \<longrightarrow> ContainsTag s kv k v = Some (Inr False))"
proof -
  have f: "FindTag s kv k = Some (find (\<lambda>t. Key t = k) s)"
    using assms by (rule FindTag_find)
  have desc: "descending_keys s"
    using assms by (simp add: encoded_tags_def)
  have main: "ContainsTag s kv k v =
           Some (Inr (\<exists>t \<in> set s. Key t = k \<and> (\<exists>x \<in> set (Values t). \<exists>p q. x = p @ v @ q)))"
  proof (cases "find (\<lambda>t. Key t = k) s")
    case None
    then have "\<forall>t \<in> set s. Key t \<noteq> k"
      by (simp add: find_None_iff)
    with None f show ?thesis
      by (simp add: ContainsTag_def)
  next
    case (Some t)
    then obtain n where n: "n < length s" "t = s ! n" "Key (s ! n) = k"
      by (auto simp: find_Some_iff)
    have uniq: "t' = t" if "t' \<in> set s" "Key t' = k" for t'
    proof -
      from that obtain m where m: "m < length s" "t' = s ! m"
        by (auto simp: in_set_conv_nth)
      have "find (\<lambda>t. Key t = k) s = Some (s ! m)"
        using desc m that by (intro find_unique_key) simp_all
      with Some m show ?thesis by simp
    qed
    have "values_contain t v 0 (ValueLength t) = Inr (\<exists>x \<in> set (Values t). Contains x v)"
      using values_contain_eq [of 0 "ValueLength t" t v] by simp
    then have c: "ContainsTag s kv k v = Some (Inr (\<exists>x \<in> set (Values t). \<exists>p q. x = p @ v @ q))"
      using Some f by (simp add: ContainsTag_def Contains_iff)
    have "(\<exists>t' \<in> set s. Key t' = k \<and> (\<exists>x \<in> set (Values t'). \<exists>p q. x = p @ v @ q))
            \<longleftrightarrow> (\<exists>x \<in> set (Values t). \<exists>p q. x = p @ v @ q)"
    proof
      assume "\<exists>t' \<in> set s. Key t' = k \<and> (\<exists>x \<in> set (Values t'). \<exists>p q. x = p @ v @ q)"
      then obtain t' where "t' \<in> set s" "Key t' = k" "\<exists>x \<in> set (Values t'). \<exists>p q. x = p @ v @ q"
        by blast
      with uniq [of t'] show "\<exists>x \<in> set (Values t). \<exists>p q. x = p @ v @ q"
        by simp
    next
      assume "\<exists>x \<in> set (Values t). \<exists>p q. x = p @ v @ q"
      moreover have "t \<in> set s" "Key t = k"
        using n by simp_all
      ultimately show "\<exists>t' \<in> set s. Key t' = k \<and> (\<exists>x \<in> set (Values t'). \<exists>p q. x = p @ v @ q)"
        by blast
    qed
    with c show ?thesis
      by (simp only:)
  qed
  have absent: "(\<forall>t \<in> set s. Key t \<noteq> k) \<longrightarrow> ContainsTag s kv k v = Some (Inr False)"
    unfolding main by auto
  show ?thesis
    using main absent by (simp add: SearchEntry_Contains_def)
qed

theorem ContainsTag_substring_match_witness:
  "encoded_tags [\<lparr>Key = ''host'', Values = [''example.com'']\<rparr>]
   \<and> ContainsTag [\<lparr>Key = ''host'', Values = [''example.com'']\<rparr>] empty_KeyValues
        ''host'' ''example'' = Some (Inr True)
   \<and> ContainsTag [\<lparr>Key = ''host'', Values = [''example.com'']\<rparr>] empty_KeyValues
        ''port'' ''example'' = Some (Inr False)"
proof -
  let ?s = "[\<lparr>Key = ''host'', Values = [''example.com'']\<rparr>]"
  have e: "encoded_tags ?s"
    by (simp add: encoded_tags_def descending_keys_def TagsLength_def)
  have sub: "''example.com'' = [] @ ''example'' @ ''.com''"
    by simp
  have t: "(\<exists>t \<in> set ?s. Key t = ''host'' \<and>
             (\<exists>x \<in> set (Values t). \<exists>p q. x = p @ ''example'' @ q)) = True"
    using sub by simp blast
  have a: "\<forall>t \<in> set ?s. Key t \<noteq> ''port''"
    by simp
  have h: "ContainsTag ?s empty_KeyValues ''host'' ''example'' = Some (Inr True)"
    using ContainsTag_substring_match [OF e, THEN conjunct1] t by (simp only:)
  have p: "ContainsTag ?s empty_KeyValues ''port'' ''example'' = Some (Inr False)"
    by (rule ContainsTag_substring_match [OF e, THEN conjunct2, THEN conjunct2, THEN mp])
      (rule a)
  show ?thesis
    using e h p by (simp only: simp_thms)
qed

text \<open>
  Claim C10. \<^verbatim>\<open>FindTag\<close>, \<^verbatim>\<open>ContainsTag\<close> and \<^verbatim>\<open>Contains\<close> compare the caller's key
  byte for byte, without lower-casing it, and \<^verbatim>\<open>Get\<close> looks the lower-cased key up.
  So on every container whose stored keys are lower-cased (no byte A to Z), a key with
  an upper-case byte matches no record in \<^verbatim>\<open>FindTag\<close> and \<^verbatim>\<open>Contains\<close>, also when
  \<^verbatim>\<open>Get\<close> finds a value for the same key (the witness: HTTP.METHOD).
\<close>

theorem uppercase_key_never_matches:
  assumes "lower_keys (entry_tags e)" and "TagsLength (entry_tags e) < 2 ^ 63"
    and "\<not> no_upper k"
  shows "FindTag (entry_tags e) kv k = Some None
         \<and> ContainsTag (entry_tags e) kv k v = Some (Inr False)
         \<and> SearchEntry_Contains e k v kv = Some (Inr False)
         \<and> Get e k = (case find (\<lambda>t. Key t = ToLower k) (entry_tags e) of
                         None \<Rightarrow> Inr [] | Some t \<Rightarrow> Value t 0)"
proof -
  obtain r where r: "FindTag (entry_tags e) kv k = Some r"
    and rr: "\<forall>t. r = Some t \<longrightarrow> t \<in> set (entry_tags e) \<and> Key t = k"
    using FindTag_returns [OF assms(2), of kv k] by blast
  have "r = None"
  proof (cases r)
    case None
    then show ?thesis .
  next
    case (Some t)
    with rr have "t \<in> set (entry_tags e)" "Key t = k"
      by simp_all
    with assms(1) have "no_upper k"
      by (auto simp: lower_keys_def list_all_iff)
    with assms(3) show ?thesis
      by simp
  qed
  with r have f: "FindTag (entry_tags e) kv k = Some None"
    by simp
  then show ?thesis
    by (simp add: ContainsTag_def SearchEntry_Contains_def Get_eq)
qed

theorem uppercase_key_never_matches_witness:
  "lower_keys [\<lparr>Key = ''http.method'', Values = [''GET'']\<rparr>]
   \<and> \<not> no_upper ''HTTP.METHOD''
   \<and> FindTag [\<lparr>Key = ''http.method'', Values = [''GET'']\<rparr>] empty_KeyValues ''HTTP.METHOD''
       = Some None
   \<and> SearchEntry_Contains \<lparr>entry_id = ''abc'', entry_start = 100, entry_end = 200,
         entry_tags = [\<lparr>Key = ''http.method'', Values = [''GET'']\<rparr>]\<rparr>
         ''HTTP.METHOD'' ''GET'' empty_KeyValues = Some (Inr False)
   \<and> Get \<lparr>entry_id = ''abc'', entry_start = 100, entry_end = 200,
         entry_tags = [\<lparr>Key = ''http.method'', Values = [''GET'']\<rparr>]\<rparr> ''HTTP.METHOD''
       = Inr ''GET''"
proof -
  let ?e = "\<lparr>entry_id = ''abc'', entry_start = 100, entry_end = 200,
         entry_tags = [\<lparr>Key = ''http.method'', Values = [''GET'']\<rparr>]\<rparr>"
  have l: "lower_keys (entry_tags ?e)"
    by code_simp
  have n: "TagsLength (entry_tags ?e) < 2 ^ 63"
    by (simp add: TagsLength_def)
  have u: "\<not> no_upper ''HTTP.METHOD''"
    by code_simp
  have g: "Get ?e ''HTTP.METHOD'' = Inr ''GET''"
    by code_simp
  show ?thesis
    using uppercase_key_never_matches [OF l n u, of empty_KeyValues "''GET''"] l u g
    by simp
qed

end
